theory Spec2Isabelle
  imports Main "HOL-Library.Word"
begin

unbundle bit_operations_syntax

section \<open>Bytes and buffers\<close>

text \<open>
  The program is \<^verbatim>\<open>ntag424_read.c\<close>. A \<^verbatim>\<open>uint8_t\<close> is an \<open>8 word\<close>, a
  \<^verbatim>\<open>uint16_t\<close> a \<open>16 word\<close>, a \<^verbatim>\<open>uint32_t\<close> a \<open>32 word\<close>. A C buffer together
  with the number of bytes of it that are in use is a list of bytes; a \<^verbatim>\<open>size_t\<close>
  length is a \<open>nat\<close> (every buffer of the program holds at most a few hundred bytes,
  far from the wrap-around of \<^verbatim>\<open>size_t\<close>). A C function that returns an \<^verbatim>\<open>int\<close> used
  as a truth value returns a \<open>bool\<close> here, and the \<^verbatim>\<open>int\<close> flags of the structs are
  \<open>bool\<close> fields.
\<close>

type_synonym byte = "8 word"
type_synonym bytes = "byte list"

section \<open>ISO/IEC 9797-1 padding method 2\<close>

text \<open>
  \<^verbatim>\<open>pad_iso9797_m2(in, in_len, out)\<close> (lines 172-179) writes the padded message to
  \<^verbatim>\<open>out\<close> and returns its length. The model returns the bytes written; the returned
  length is the length of that list.
\<close>

definition pad_iso9797_m2 :: "bytes \<Rightarrow> bytes" where
  "pad_iso9797_m2 inp =
     (let in_len = length inp;
          pad_len0 = 16 - (in_len mod 16);
          pad_len = (if pad_len0 = 0 then 16 else pad_len0)
      in inp @ [0x80] @ replicate (pad_len - 1) 0)"

text \<open>
  The scan of \<^verbatim>\<open>unpad_iso9797_m2\<close> (line 184):
  \<^verbatim>\<open>while (i >= 0 && buf[i] == 0x00) i--;\<close> with the signed index \<^verbatim>\<open>i\<close>.
\<close>

function unpad_scan :: "bytes \<Rightarrow> int \<Rightarrow> int" where
  "unpad_scan buf i = (if 0 \<le> i \<and> buf ! nat i = 0 then unpad_scan buf (i - 1) else i)"
  by pat_completeness auto
termination
  by (relation "measure (\<lambda>(buf, i). nat (i + 1))") auto

declare unpad_scan.simps [simp del]

text \<open>
  \<^verbatim>\<open>unpad_iso9797_m2(buf, len)\<close> (lines 181-189) returns the length of the unpadded
  data, which stays in place at the front of \<^verbatim>\<open>buf\<close>. The callers pass a \<^verbatim>\<open>len\<close>
  that is at most the size of the buffer.
\<close>

definition unpad_iso9797_m2 :: "bytes \<Rightarrow> nat \<Rightarrow> nat" where
  "unpad_iso9797_m2 buf len =
     (if len = 0 then 0
      else let i = unpad_scan buf (int len - 1)
           in if 0 \<le> i \<and> buf ! nat i = 0x80 then nat i else len)"

section \<open>The system's AES primitive\<close>

text \<open>
  AES comes from the operating system (\<^verbatim>\<open>CCCrypt\<close> of CommonCrypto); it is not code
  of the program, so the model takes it as a parameter \<open>cc\<close>. A call
  \<^verbatim>\<open>CCCrypt(op, kCCAlgorithmAES128, options, key, 16, iv, in, in_len, out, cap, &out_len)\<close>
  is \<open>cc op options key iv inp\<close>; it gives the status and the bytes moved to
  \<^verbatim>\<open>out\<close> (\<^verbatim>\<open>out_len\<close> is their number). A \<^verbatim>\<open>NULL\<close> initialisation vector is
  \<open>None\<close>.
\<close>

datatype CCOperation = kCCEncrypt | kCCDecrypt

type_synonym cccrypt = "CCOperation \<Rightarrow> nat \<Rightarrow> bytes \<Rightarrow> bytes option \<Rightarrow> bytes \<Rightarrow> int \<times> bytes"

definition kCCSuccess :: int where
  "kCCSuccess = 0"

definition kCCOptionECBMode :: nat where
  "kCCOptionECBMode = 2"

text \<open>
  \<open>store prev moved\<close> is a buffer that held \<open>prev\<close> after \<open>moved\<close> was written to
  its front.
\<close>

definition store :: "bytes \<Rightarrow> bytes \<Rightarrow> bytes" where
  "store prev moved = moved @ drop (length moved) prev"

text \<open>
  \<^verbatim>\<open>aes_ecb_encrypt(key, in, out)\<close> (lines 89-94). The result is the truth value
  returned and the content of \<^verbatim>\<open>out\<close> after the call, \<open>prev\<close> being its content
  before. Where the C buffer is a fresh local array its previous content is
  indeterminate; the callers below pass zeros for it.
\<close>

definition aes_ecb_encrypt :: "cccrypt \<Rightarrow> bytes \<Rightarrow> bytes \<Rightarrow> bytes \<Rightarrow> bool \<times> bytes" where
  "aes_ecb_encrypt cc key inp prev =
     (let (st, moved) = cc kCCEncrypt kCCOptionECBMode key None (take 16 inp)
      in (st = kCCSuccess \<and> length moved = 16, store prev moved))"

text \<open>
  \<^verbatim>\<open>aes_cbc_crypt(encrypt, key, iv, in, in_len, out)\<close> (lines 96-104). Every caller
  returns at once when it fails, so only the bytes moved are kept.
\<close>

definition aes_cbc_crypt :: "cccrypt \<Rightarrow> bool \<Rightarrow> bytes \<Rightarrow> bytes \<Rightarrow> bytes \<Rightarrow> nat \<Rightarrow> bool \<times> bytes" where
  "aes_cbc_crypt cc encrypt key iv inp in_len =
     (let (st, moved) = cc (if encrypt then kCCEncrypt else kCCDecrypt) 0 key (Some iv) (take in_len inp)
      in (st = kCCSuccess \<and> length moved = in_len, moved))"

section \<open>AES-CMAC\<close>

text \<open>\<^verbatim>\<open>xor_block(out, a, b, len)\<close> (lines 106-108); the result is \<^verbatim>\<open>out[0..len)\<close>.\<close>

definition xor_block :: "bytes \<Rightarrow> bytes \<Rightarrow> nat \<Rightarrow> bytes" where
  "xor_block a b len = map (\<lambda>i. a ! i XOR b ! i) [0..<len]"

text \<open>
  \<^verbatim>\<open>left_shift_1bit(out, in)\<close> (lines 110-117). The loop runs \<^verbatim>\<open>i\<close> from 15 down
  to 0; \<open>left_shift_loop inp (Suc i) carry out\<close> is the loop about to run its body
  at index \<open>i\<close>.
\<close>

fun left_shift_loop :: "bytes \<Rightarrow> nat \<Rightarrow> byte \<Rightarrow> bytes \<Rightarrow> bytes" where
  "left_shift_loop inp 0 carry out = out"
| "left_shift_loop inp (Suc i) carry out =
     (let new_carry = (if inp ! i AND 0x80 \<noteq> 0 then 1 else 0)
      in left_shift_loop inp i new_carry (out[i := push_bit 1 (inp ! i) OR carry]))"

definition left_shift_1bit :: "bytes \<Rightarrow> bytes" where
  "left_shift_1bit inp = left_shift_loop inp 16 0 (replicate 16 0)"

text \<open>
  \<^verbatim>\<open>generate_cmac_subkeys(key, k1, k2)\<close> (lines 119-131). The result of
  \<^verbatim>\<open>aes_ecb_encrypt\<close> is ignored, as in the source.
\<close>

definition generate_cmac_subkeys :: "cccrypt \<Rightarrow> bytes \<Rightarrow> bytes \<times> bytes" where
  "generate_cmac_subkeys cc key =
     (let zero = replicate 16 0;
          L = snd (aes_ecb_encrypt cc key zero (replicate 16 0));
          k1a = left_shift_1bit L;
          k1 = (if L ! 0 AND 0x80 \<noteq> 0 then k1a[15 := k1a ! 15 XOR 0x87] else k1a);
          k2a = left_shift_1bit k1;
          k2 = (if k1 ! 0 AND 0x80 \<noteq> 0 then k2a[15 := k2a ! 15 XOR 0x87] else k2a)
      in (k1, k2))"

text \<open>\<^verbatim>\<open>memcpy(dst + off, src, n)\<close>: the content of \<^verbatim>\<open>dst\<close> afterwards.\<close>

definition memcpy :: "bytes \<Rightarrow> nat \<Rightarrow> bytes \<Rightarrow> nat \<Rightarrow> bytes" where
  "memcpy dst off src n = take off dst @ take n src @ drop (off + n) dst"

text \<open>
  The CBC loop of \<^verbatim>\<open>aes_cmac\<close> (lines 157-160) over all blocks but the last;
  \<open>None\<close> is the \<^verbatim>\<open>return 0\<close> inside it.
\<close>

function cmac_loop :: "cccrypt \<Rightarrow> bytes \<Rightarrow> bytes \<Rightarrow> nat \<Rightarrow> nat \<Rightarrow> bytes \<Rightarrow> bytes option" where
  "cmac_loop cc key msg i n x =
     (if i + 1 < n
      then (let y = xor_block x (drop (16 * i) msg) 16;
                (ok, x') = aes_ecb_encrypt cc key y x
            in if \<not> ok then None else cmac_loop cc key msg (i + 1) n x')
      else Some x)"
  by pat_completeness auto
termination
  by (relation "measure (\<lambda>(cc, key, msg, i, n, x). n - i)") auto

declare cmac_loop.simps [simp del]

text \<open>
  \<^verbatim>\<open>aes_cmac(key, msg, msg_len, out)\<close> (lines 133-165): the truth value returned
  and the content of \<^verbatim>\<open>out\<close> afterwards (\<open>prev\<close> before).
\<close>

definition aes_cmac :: "cccrypt \<Rightarrow> bytes \<Rightarrow> bytes \<Rightarrow> bytes \<Rightarrow> bool \<times> bytes" where
  "aes_cmac cc key msg prev =
     (let (k1, k2) = generate_cmac_subkeys cc key;
          msg_len = length msg;
          n0 = (msg_len + 15) div 16;
          n = (if n0 = 0 then 1 else n0);
          last_complete = (msg_len \<noteq> 0 \<and> msg_len mod 16 = 0);
          last_block =
            (if last_complete
             then xor_block (drop (16 * (n - 1)) msg) k1 16
             else (let last_len0 = msg_len - 16 * (n - 1);
                       last_len = (if msg_len = 0 then 0 else last_len0);
                       lb0 = (if last_len > 0
                              then memcpy (replicate 16 0) 0 (drop (16 * (n - 1)) msg) last_len
                              else replicate 16 0);
                       lb = lb0[last_len := 0x80]
                   in xor_block lb k2 16))
      in case cmac_loop cc key msg 0 n (replicate 16 0) of
           None \<Rightarrow> (False, prev)
         | Some x \<Rightarrow> aes_ecb_encrypt cc key (xor_block x last_block 16) prev)"

text \<open>\<^verbatim>\<open>cmac_truncate_8(cmac, out)\<close> (lines 167-170).\<close>

definition cmac_truncate_8 :: "bytes \<Rightarrow> bytes" where
  "cmac_truncate_8 cmac = map (\<lambda>i. cmac ! (1 + i * 2)) [0..<8]"

section \<open>Byte rotation\<close>

text \<open>
  \<^verbatim>\<open>rotate_left_1(out, in, len)\<close> and \<^verbatim>\<open>rotate_right_1(out, in, len)\<close>
  (lines 191-201): the first \<^verbatim>\<open>len\<close> bytes of \<^verbatim>\<open>out\<close> afterwards, \<open>prev\<close>
  being its content before (nothing is written when \<^verbatim>\<open>len\<close> is 0).
\<close>

definition rotate_left_1 :: "bytes \<Rightarrow> bytes \<Rightarrow> nat \<Rightarrow> bytes" where
  "rotate_left_1 prev inp len =
     (if len = 0 then prev
      else (memcpy prev 0 (drop 1 inp) (len - 1))[len - 1 := inp ! 0])"

definition rotate_right_1 :: "bytes \<Rightarrow> bytes \<Rightarrow> nat \<Rightarrow> bytes" where
  "rotate_right_1 prev inp len =
     (if len = 0 then prev
      else (memcpy prev 1 inp (len - 1))[0 := inp ! (len - 1)])"

section \<open>The SDM NDEF template\<close>

text \<open>
  A C string is the list of its characters before the terminating NUL; characters
  are bytes.
\<close>

definition cstr :: "string \<Rightarrow> bytes" where
  "cstr s = map of_char s"

text \<open>
  \<^verbatim>\<open>find_substr(buf, len, needle, pos_out)\<close> (lines 252-262): \<open>Some pos\<close> when it
  returns 1, \<open>None\<close> when it returns 0.
\<close>

function find_substr_loop :: "bytes \<Rightarrow> nat \<Rightarrow> bytes \<Rightarrow> nat \<Rightarrow> nat option" where
  "find_substr_loop buf len needle i =
     (if i + length needle \<le> len
      then (if take (length needle) (drop i buf) = needle then Some i
            else find_substr_loop buf len needle (i + 1))
      else None)"
  by pat_completeness auto
termination
  by (relation "measure (\<lambda>(buf, len, needle, i). len + 1 - i)") auto

declare find_substr_loop.simps [simp del]

definition find_substr :: "bytes \<Rightarrow> nat \<Rightarrow> bytes \<Rightarrow> nat option" where
  "find_substr buf len needle =
     (let nlen = length needle
      in if nlen = 0 \<or> nlen > len then None else find_substr_loop buf len needle 0)"

record sdm_ndef_t =
  ndef :: bytes
  ndef_len :: nat
  uid_offset :: "32 word"
  ctr_offset :: "32 word"
  mac_input_offset :: "32 word"
  mac_offset :: "32 word"
  url :: bytes

definition SDM_UID_LEN_ASCII :: nat where
  "SDM_UID_LEN_ASCII = 14"

definition SDM_CTR_LEN_ASCII :: nat where
  "SDM_CTR_LEN_ASCII = 6"

definition SDM_MAC_LEN_ASCII :: nat where
  "SDM_MAC_LEN_ASCII = 16"

text \<open>The table \<^verbatim>\<open>prefixes\<close> of \<^verbatim>\<open>build_sdm_ndef\<close> (lines 276-284).\<close>

definition prefixes :: "(bytes \<times> byte) list" where
  "prefixes =
     [(cstr ''https://www.'', 0x02),
      (cstr ''http://www.'', 0x01),
      (cstr ''https://'', 0x04),
      (cstr ''http://'', 0x03)]"

text \<open>
  The loop over the table (lines 288-295): the first entry that is a prefix of the
  URL gives the code and the rest of the URL; with none, code 0 and the whole URL.
\<close>

fun match_prefix :: "(bytes \<times> byte) list \<Rightarrow> bytes \<Rightarrow> byte \<times> bytes" where
  "match_prefix [] u = (0x00, u)"
| "match_prefix ((prefix, code) # rest) u =
     (let plen = length prefix
      in if take plen u = prefix then (code, drop plen u) else match_prefix rest u)"

text \<open>
  \<^verbatim>\<open>build_sdm_ndef(base_url, out)\<close> (lines 264-363): \<open>None\<close> when it returns 0,
  \<open>Some\<close> of the struct it filled when it returns 1. Both pointers are non-null at
  its only call, and \<^verbatim>\<open>calloc\<close> is taken to succeed.
\<close>

definition build_sdm_ndef :: "string \<Rightarrow> sdm_ndef_t option" where
  "build_sdm_ndef base_url =
     (let uid_placeholder = cstr ''00000000000000'';
          ctr_placeholder = cstr ''000000'';
          mac_placeholder = cstr ''0000000000000000'';
          formatted = cstr base_url @ cstr ''?uid='' @ uid_placeholder @ cstr ''&ctr='' @ ctr_placeholder
                      @ cstr ''&mac='' @ mac_placeholder;
          n = length formatted
      in if n \<le> 0 \<or> n \<ge> 512 then None
         else (let (prefix_code, uri) = match_prefix prefixes formatted;
                   uri_len = length uri
               in if uri_len > 255 then None
                  else (let payload_len = 1 + uri_len
                        in if payload_len > 255 then None
                           else (let record_len = 4 + payload_len;
                                     total_len = 2 + record_len
                                 in if total_len > 256 then None
                                    else (let buf = memcpy
                                                ((replicate total_len 0)
                                                   [0 := of_nat ((record_len div 256) mod 256),
                                                    1 := of_nat (record_len mod 256),
                                                    2 := 0xD1,
                                                    3 := 0x01,
                                                    4 := of_nat payload_len,
                                                    5 := 0x55,
                                                    6 := prefix_code])
                                                7 uri uri_len
                                          in case find_substr buf total_len (cstr ''uid='') of
                                               None \<Rightarrow> None
                                             | Some uid_key_pos \<Rightarrow>
                                          (case find_substr buf total_len (cstr ''ctr='') of
                                               None \<Rightarrow> None
                                             | Some ctr_key_pos \<Rightarrow>
                                          (case find_substr buf total_len (cstr ''mac='') of
                                               None \<Rightarrow> None
                                             | Some mac_key_pos \<Rightarrow>
                                          (let uid_off = uid_key_pos + 4;
                                               ctr_off = ctr_key_pos + 4;
                                               mac_off = mac_key_pos + 4
                                           in if uid_off + SDM_UID_LEN_ASCII > total_len \<or>
                                                 ctr_off + SDM_CTR_LEN_ASCII > total_len \<or>
                                                 mac_off + SDM_MAC_LEN_ASCII > total_len then None
                                              else if \<exists>i \<in> set [0..<SDM_UID_LEN_ASCII]. buf ! (uid_off + i) \<noteq> of_char CHR ''0'' then None
                                              else if \<exists>i \<in> set [0..<SDM_CTR_LEN_ASCII]. buf ! (ctr_off + i) \<noteq> of_char CHR ''0'' then None
                                              else if \<exists>i \<in> set [0..<SDM_MAC_LEN_ASCII]. buf ! (mac_off + i) \<noteq> of_char CHR ''0'' then None
                                              else Some \<lparr>ndef = buf, ndef_len = total_len,
                                                         uid_offset = of_nat uid_off,
                                                         ctr_offset = of_nat ctr_off,
                                                         mac_input_offset = of_nat uid_key_pos,
                                                         mac_offset = of_nat mac_off,
                                                         url = formatted\<rparr>))))))))"

section \<open>24-bit fields and the CRC\<close>

text \<open>\<^verbatim>\<open>read_u24_le(&data[idx])\<close> (lines 405-407) and \<^verbatim>\<open>write_u24_le\<close> (lines 409-413).\<close>

definition read_u24_le :: "bytes \<Rightarrow> nat \<Rightarrow> 32 word" where
  "read_u24_le data idx =
     ucast (data ! idx) OR push_bit 8 (ucast (data ! (idx + 1))) OR push_bit 16 (ucast (data ! (idx + 2)))"

definition write_u24_le :: "32 word \<Rightarrow> bytes" where
  "write_u24_le v =
     [ucast (v AND 0xFF), ucast (drop_bit 8 v AND 0xFF), ucast (drop_bit 16 v AND 0xFF)]"

text \<open>
  \<^verbatim>\<open>crc32_ieee(data, len)\<close> (lines 415-429): \<open>crc32_shift\<close> is one pass of the inner
  loop, \<open>crc32_byte\<close> the body of the outer loop.
\<close>

definition crc32_shift :: "32 word \<Rightarrow> 32 word" where
  "crc32_shift crc = (if crc AND 1 \<noteq> 0 then drop_bit 1 crc XOR 0xEDB88320 else drop_bit 1 crc)"

definition crc32_byte :: "32 word \<Rightarrow> byte \<Rightarrow> 32 word" where
  "crc32_byte crc b = (crc32_shift ^^ 8) (crc XOR ucast b)"

definition crc32_ieee :: "bytes \<Rightarrow> 32 word" where
  "crc32_ieee data = foldl crc32_byte 0xFFFFFFFF data"

section \<open>The transport\<close>

text \<open>
  The reader is reached through \<^verbatim>\<open>SCardTransmit\<close> of PC/SC, which is not code of
  the program either: the model takes it as a parameter \<open>tx\<close> over a state \<open>'c\<close> of
  the reader and the card. \<open>tx crd apdu\<close> gives the return code, the bytes received
  (body and status word) and the next state.
\<close>

type_synonym 'c scard_transmit = "'c \<Rightarrow> bytes \<Rightarrow> (int \<times> bytes) \<times> 'c"

definition SCARD_S_SUCCESS :: int where
  "SCARD_S_SUCCESS = 0"

definition SCARD_E_PROTO_MISMATCH :: int where
  "SCARD_E_PROTO_MISMATCH = 0x8010000F"

text \<open>
  \<^verbatim>\<open>transmit(card, pio, apdu, apdu_len, resp, resp_len, sw)\<close> (lines 72-83): the
  return code, the body (\<^verbatim>\<open>resp[0..*resp_len)\<close>), the content of \<^verbatim>\<open>*sw\<close>
  afterwards (\<open>sw0\<close> before), and the next state. On an error the body is not read
  by any caller; it is empty here.
\<close>

definition transmit :: "'c scard_transmit \<Rightarrow> 'c \<Rightarrow> bytes \<Rightarrow> 16 word \<Rightarrow> (int \<times> bytes \<times> 16 word) \<times> 'c" where
  "transmit tx crd apdu sw0 =
     (let ((rc, resp), card') = tx crd apdu;
          rlen = length resp
      in if rc \<noteq> SCARD_S_SUCCESS then ((rc, [], sw0), card')
         else if rlen < 2 then ((SCARD_E_PROTO_MISMATCH, [], sw0), card')
         else ((SCARD_S_SUCCESS, take (rlen - 2) resp,
                push_bit 8 (ucast (resp ! (rlen - 2))) OR ucast (resp ! (rlen - 1))), card'))"




section \<open>The session and the EV2-First handshake\<close>

record ssm_session_t =
  kenc :: bytes
  kmac :: bytes
  ti :: bytes
  cmd_ctr :: "16 word"
  key_no :: byte
  authenticated :: bool

text \<open>
  \<^verbatim>\<open>authenticate_ev2_first(card, pio, key, key_no, sess)\<close> (lines 523-647). The 16
  bytes that lines 551-559 leave in \<^verbatim>\<open>rndA\<close> (parsed from the environment variable
  \<^verbatim>\<open>NTAG_RNDA\<close>, or random) are the parameter \<open>rndA\<close>. The result is the truth
  value returned, the session struct afterwards and the next state of the card. The
  printing under \<^verbatim>\<open>NTAG_DEBUG_KEYS\<close> is left out.
\<close>

definition authenticate_ev2_first ::
  "'c scard_transmit \<Rightarrow> cccrypt \<Rightarrow> 'c \<Rightarrow> bytes \<Rightarrow> byte \<Rightarrow> bytes \<Rightarrow> ssm_session_t \<Rightarrow> (bool \<times> ssm_session_t) \<times> 'c" where
  "authenticate_ev2_first tx cc crd key keyno rndA sess =
     (let apdu1 = [0x90, 0x71, 0x00, 0x00, 0x02, keyno, 0x00, 0x00];
          ((rc1, resp1, sw1), card1) = transmit tx crd apdu1 0
      in if rc1 \<noteq> SCARD_S_SUCCESS then ((False, sess), card1)
         else if sw1 \<noteq> 0x91AF \<or> length resp1 \<noteq> 16 then ((False, sess), card1)
         else (let rndB_enc = take 16 resp1;
                   iv0 = replicate 16 0;
                   (okB, rndB) = aes_cbc_crypt cc False key iv0 rndB_enc 16
               in if \<not> okB then ((False, sess), card1)
                  else (let rndB_rot = rotate_left_1 (replicate 16 0) rndB 16;
                            rndAB = memcpy (memcpy (replicate 32 0) 0 rndA 16) 16 rndB_rot 16;
                            (okAB, rndAB_enc) = aes_cbc_crypt cc True key iv0 rndAB 32
                        in if \<not> okAB then ((False, sess), card1)
                           else (let apdu2 = [0x90, 0xAF, 0x00, 0x00, 0x20] @ take 32 rndAB_enc @ [0x00];
                                     ((rc2, resp2, sw2), card2) = transmit tx card1 apdu2 sw1
                                 in if rc2 \<noteq> SCARD_S_SUCCESS then ((False, sess), card2)
                                    else if sw2 \<noteq> 0x9100 \<or> length resp2 \<noteq> 32 then ((False, sess), card2)
                                    else (let (okD, dec) = aes_cbc_crypt cc False key iv0 resp2 32
                                          in if \<not> okD then ((False, sess), card2)
                                             else (let ti' = take 4 dec;
                                                       rndA_rot = take 16 (drop 4 dec);
                                                       rndA_check = rotate_right_1 (replicate 16 0) rndA_rot 16
                                                   in if take 16 rndA_check \<noteq> take 16 rndA then ((False, sess), card2)
                                                      else (let prefix1 = [0xA5, 0x5A, 0x00, 0x01, 0x00, 0x80];
                                                                prefix2 = [0x5A, 0xA5, 0x00, 0x01, 0x00, 0x80];
                                                                xor_part = map (\<lambda>i. rndA ! (2 + i) XOR rndB ! i) [0..<6];
                                                                sv1 = memcpy (memcpy (memcpy (memcpy (memcpy (replicate 32 0)
                                                                        0 prefix1 6) 6 rndA 2) 8 xor_part 6) 14 (drop 6 rndB) 10)
                                                                        24 (drop 8 rndA) 8;
                                                                sv2 = memcpy (memcpy (memcpy (memcpy (memcpy (replicate 32 0)
                                                                        0 prefix2 6) 6 rndA 2) 8 xor_part 6) 14 (drop 6 rndB) 10)
                                                                        24 (drop 8 rndA) 8;
                                                                (ok1, kenc') = aes_cmac cc key sv1 (kenc sess);
                                                                sess1 = sess\<lparr>kenc := kenc'\<rparr>
                                                            in if \<not> ok1 then ((False, sess1), card2)
                                                               else (let (ok2, kmac') = aes_cmac cc key sv2 (kmac sess1);
                                                                         sess2 = sess1\<lparr>kmac := kmac'\<rparr>
                                                                     in if \<not> ok2 then ((False, sess2), card2)
                                                                        else ((True, sess2\<lparr>ti := memcpy (ti sess2) 0 ti' 4,
                                                                                           cmd_ctr := 0,
                                                                                           key_no := keyno,
                                                                                           authenticated := True\<rparr>), card2)))))))))"

section \<open>Secure messaging\<close>

definition MAX_APDU :: nat where
  "MAX_APDU = 512"

text \<open>
  The result of \<^verbatim>\<open>ssm_cmd_full\<close>: the truth value returned, the session struct,
  the state of the card, the bytes copied to \<^verbatim>\<open>out\<close> (none when it returns 0;
  \<^verbatim>\<open>*out_len\<close> is set to their number when it returns 1), and the status word
  stored to \<^verbatim>\<open>*sw_out\<close> (\<open>None\<close> when nothing is stored).
\<close>

record 'c ssm_result =
  ret :: bool
  sess_out :: ssm_session_t
  card_out :: 'c
  out_data :: bytes
  sw_out :: "16 word option"

text \<open>
  The body of \<^verbatim>\<open>ssm_cmd_full\<close> is modelled in three parts. \<open>ssm_wrap\<close> is lines
  655-715, from the command IV to the wire APDU: \<open>None\<close> where the source returns 0,
  else the APDU to transmit. The printing under \<^verbatim>\<open>NTAG_DEBUG_APDU\<close> is left out.
\<close>

definition ssm_wrap :: "cccrypt \<Rightarrow> ssm_session_t \<Rightarrow> byte \<Rightarrow> bytes \<Rightarrow> bytes \<Rightarrow> bytes option" where
  "ssm_wrap cc sess cmd cmd_header cmd_data =
     (let ivc_in = (memcpy ((replicate 16 0)[0 := 0xA5, 1 := 0x5A]) 2 (ti sess) 4)
                     [6 := ucast (cmd_ctr sess AND 0xFF),
                      7 := ucast (drop_bit 8 (cmd_ctr sess) AND 0xFF)];
          (ok_iv, ivc) = aes_ecb_encrypt cc (kenc sess) ivc_in (replicate 16 0)
      in if \<not> ok_iv then None
         else (let enc_opt =
                     (if length cmd_data > 0
                      then (let padded = pad_iso9797_m2 cmd_data;
                                padded_len = length padded
                            in if padded_len > MAX_APDU then None
                               else (let (ok_enc, enc_data) = aes_cbc_crypt cc True (kenc sess) ivc padded padded_len
                                     in if \<not> ok_enc then None else Some enc_data))
                      else Some [])
               in case enc_opt of
                    None \<Rightarrow> None
                  | Some enc \<Rightarrow>
                      (let mac_input = [cmd, ucast (cmd_ctr sess AND 0xFF), ucast (drop_bit 8 (cmd_ctr sess) AND 0xFF)]
                                       @ take 4 (ti sess) @ cmd_header @ enc;
                           (ok_mac, cmac) = aes_cmac cc (kmac sess) mac_input (replicate 16 0)
                       in if \<not> ok_mac then None
                          else (let mact = cmac_truncate_8 cmac;
                                    data_len = length cmd_header + length enc + 8
                                in if data_len > 255 then None
                                   else Some ([0x90, cmd, 0x00, 0x00, of_nat data_len]
                                              @ cmd_header @ enc @ mact @ [0x00])))))"

text \<open>
  \<open>ssm_response_mac\<close> is lines 745-760: the truncated CMAC expected over the status
  byte \<^verbatim>\<open>SW2\<close>, the incremented counter, the transaction identifier and the
  response body without its last 8 bytes; \<open>None\<close> where \<^verbatim>\<open>aes_cmac\<close> fails.
\<close>

definition ssm_response_mac :: "cccrypt \<Rightarrow> ssm_session_t \<Rightarrow> 16 word \<Rightarrow> bytes \<Rightarrow> bytes option" where
  "ssm_response_mac cc sess sw resp_enc =
     (let cmdctr1 = cmd_ctr sess + 1;
          mac_in2 = [ucast (sw AND 0x00FF), ucast (cmdctr1 AND 0xFF), ucast (drop_bit 8 cmdctr1 AND 0xFF)]
                    @ take 4 (ti sess) @ resp_enc;
          (ok_mac, cmac2) = aes_cmac cc (kmac sess) mac_in2 (replicate 16 0)
      in if \<not> ok_mac then None else Some (cmac_truncate_8 cmac2))"

text \<open>
  \<open>ssm_response_iv\<close> is lines 735-743: the response IV, the encryption of
  \<^verbatim>\<open>5A A5 || TI || CmdCtr+1 || 00*8\<close> under the session encryption key, with the
  truth value of \<^verbatim>\<open>aes_ecb_encrypt\<close>.
\<close>

definition ssm_response_iv :: "cccrypt \<Rightarrow> ssm_session_t \<Rightarrow> bool \<times> bytes" where
  "ssm_response_iv cc sess =
     (let cmdctr1 = cmd_ctr sess + 1;
          ivr_in = (memcpy ((replicate 16 0)[0 := 0x5A, 1 := 0xA5]) 2 (ti sess) 4)
                     [6 := ucast (cmdctr1 AND 0xFF),
                      7 := ucast (drop_bit 8 cmdctr1 AND 0xFF)]
      in aes_ecb_encrypt cc (kenc sess) ivr_in (replicate 16 0))"

text \<open>
  \<open>ssm_unwrap\<close> is lines 728-774, the handling of a response that was received:
  the truth value returned, the session afterwards and the bytes copied to
  \<^verbatim>\<open>out\<close>. \<open>out_cap\<close> is the content of \<^verbatim>\<open>*out_len\<close> at the call, the capacity of
  \<^verbatim>\<open>out\<close>.
\<close>

definition ssm_unwrap :: "cccrypt \<Rightarrow> ssm_session_t \<Rightarrow> 16 word \<Rightarrow> bytes \<Rightarrow> nat \<Rightarrow> bool \<times> ssm_session_t \<times> bytes" where
  "ssm_unwrap cc sess sw resp out_cap =
     (let rlen = length resp
      in if sw AND 0xFF00 \<noteq> 0x9100 then (False, sess, [])
         else if rlen < 8 then (False, sess, [])
         else (let resp_enc_len = rlen - 8;
                   resp_enc = take resp_enc_len resp;
                   resp_mact = drop resp_enc_len resp;
                   cmdctr1 = cmd_ctr sess + 1;
                   (ok_iv, ivr) = ssm_response_iv cc sess
               in if \<not> ok_iv then (False, sess, [])
                  else (case ssm_response_mac cc sess sw resp_enc of
                          None \<Rightarrow> (False, sess, [])
                        | Some mact2 \<Rightarrow>
                            if take 8 resp_mact \<noteq> take 8 mact2 then (False, sess, [])
                            else if resp_enc_len > 0
                            then (let (ok_dec, dec) = aes_cbc_crypt cc False (kenc sess) ivr resp_enc resp_enc_len
                                  in if \<not> ok_dec then (False, sess, [])
                                     else (let out_written = unpad_iso9797_m2 dec resp_enc_len
                                           in if out_written > out_cap then (False, sess, [])
                                              else (True, sess\<lparr>cmd_ctr := cmdctr1\<rparr>, take out_written dec)))
                            else (True, sess\<lparr>cmd_ctr := cmdctr1\<rparr>, []))))"

text \<open>
  \<^verbatim>\<open>ssm_cmd_full(card, pio, sess, cmd, cmd_header, cmd_header_len, cmd_data,
  cmd_data_len, out, out_len, sw_out)\<close> (lines 649-775). Every caller passes the
  address of a session struct and of a status word, so the pointers are not null.
\<close>

definition ssm_cmd_full ::
  "'c scard_transmit \<Rightarrow> cccrypt \<Rightarrow> 'c \<Rightarrow> ssm_session_t \<Rightarrow> byte \<Rightarrow> bytes \<Rightarrow> bytes \<Rightarrow> nat \<Rightarrow> 'c ssm_result" where
  "ssm_cmd_full tx cc crd sess cmd cmd_header cmd_data out_cap =
     (if \<not> authenticated sess
      then \<lparr>ret = False, sess_out = sess, card_out = crd, out_data = [], sw_out = None\<rparr>
      else (case ssm_wrap cc sess cmd cmd_header cmd_data of
              None \<Rightarrow> \<lparr>ret = False, sess_out = sess, card_out = crd, out_data = [], sw_out = None\<rparr>
            | Some apdu \<Rightarrow>
                (let ((rc, resp, sw), card') = transmit tx crd apdu 0
                 in if rc \<noteq> SCARD_S_SUCCESS
                    then \<lparr>ret = False, sess_out = sess, card_out = card', out_data = [], sw_out = None\<rparr>
                    else (let (ok, sess', plain) = ssm_unwrap cc sess sw resp out_cap
                          in \<lparr>ret = ok, sess_out = sess', card_out = card', out_data = plain,
                              sw_out = Some sw\<rparr>))))"

section \<open>File settings\<close>

record file_settings_info_t =
  valid :: bool
  sdm_enabled :: bool
  sdm_read_ctr_enabled :: bool
  file_option :: byte
  sdm_options :: byte
  sdm_meta_read :: byte
  sdm_file_read :: byte
  sdm_ctr_ret :: byte
  ar1 :: byte
  ar2 :: byte
  file_size :: "32 word"

text \<open>The struct after \<^verbatim>\<open>memset(info, 0, sizeof(*info))\<close>.\<close>

definition info_zero :: file_settings_info_t where
  "info_zero = \<lparr>valid = False, sdm_enabled = False, sdm_read_ctr_enabled = False,
                 file_option = 0, sdm_options = 0, sdm_meta_read = 0, sdm_file_read = 0,
                 sdm_ctr_ret = 0, ar1 = 0, ar2 = 0, file_size = 0\<rparr>"

text \<open>
  The 24-bit fields of the tail are read into local variables and printed, not
  stored. The model keeps what is printed: the name of each field read and its value,
  in the order of reading.
\<close>

datatype sdm_field =
  UIDOffset | SDMReadCtrOffset | PICCDataOffset | SDMMACInputOffset
  | SDMENCOffset | SDMENCLength | SDMMACOffset | SDMReadCtrLimit

type_synonym parse_state = "bool \<times> nat \<times> (sdm_field \<times> 32 word) list"

text \<open>
  One conditional field group of the tail of \<^verbatim>\<open>parse_file_settings\<close> (each of the
  blocks at lines 857-911): when \<open>present\<close>, \<^verbatim>\<open>if (len < idx + 3 * k) return 0;\<close>,
  then \<open>k\<close> reads of 24 bits, each moving \<^verbatim>\<open>idx\<close> on by 3. The state is whether the
  function is still running (\<open>False\<close> after a \<^verbatim>\<open>return 0\<close>), \<^verbatim>\<open>idx\<close>, and what was
  printed.
\<close>

definition read_fields :: "bool \<Rightarrow> sdm_field list \<Rightarrow> bytes \<Rightarrow> nat \<Rightarrow> parse_state \<Rightarrow> parse_state" where
  "read_fields present names data len st =
     (case st of (running, idx, printed) \<Rightarrow>
        if \<not> running then st
        else if \<not> present then st
        else if len < idx + 3 * length names then (False, idx, printed)
        else (True, idx + 3 * length names,
              printed @ map (\<lambda>k. (names ! k, read_u24_le data (idx + 3 * k))) [0..<length names]))"

text \<open>
  \<^verbatim>\<open>parse_file_settings(data, len, info)\<close> (lines 800-914), with \<^verbatim>\<open>info\<close> not
  null (as at every call): the truth value returned, the struct afterwards, and the
  tail fields printed. The other printing is left out.
\<close>

definition parse_file_settings :: "bytes \<Rightarrow> nat \<Rightarrow> bool \<times> file_settings_info_t \<times> (sdm_field \<times> 32 word) list" where
  "parse_file_settings data len =
     (if len < 7 then (False, info_zero, [])
      else (let fopt = data ! 1;
                a1 = data ! 2;
                a2 = data ! 3;
                fsize = read_u24_le data 4;
                info1 = info_zero\<lparr>valid := True, file_option := fopt, file_size := fsize,
                                   sdm_enabled := (fopt AND 0x40 \<noteq> 0), ar1 := a1, ar2 := a2\<rparr>
            in if fopt AND 0x40 = 0 then (True, info1, [])
               else if len < 7 + 3 then (False, info1, [])
               else (let opts = data ! 7;
                         sdm_ar_lsb = data ! 8;
                         sdm_ar_msb = data ! 9;
                         sdm_ar = (ucast sdm_ar_lsb OR push_bit 8 (ucast sdm_ar_msb) :: 16 word);
                         sdm_meta = (ucast (drop_bit 12 sdm_ar AND 0x0F) :: byte);
                         sdm_file = (ucast (drop_bit 8 sdm_ar AND 0x0F) :: byte);
                         sdm_ctr = (ucast (sdm_ar AND 0x0F) :: byte);
                         info2 = info1\<lparr>sdm_options := opts, sdm_meta_read := sdm_meta,
                                       sdm_file_read := sdm_file, sdm_ctr_ret := sdm_ctr,
                                       sdm_read_ctr_enabled := (opts AND 0x40 \<noteq> 0)\<rparr>;
                         s0 = (True, 10, []);
                         s1 = read_fields (opts AND 0x80 \<noteq> 0 \<and> sdm_meta = 0x0E) [UIDOffset] data len s0;
                         s2 = read_fields (opts AND 0x40 \<noteq> 0 \<and> sdm_meta = 0x0E) [SDMReadCtrOffset] data len s1;
                         s3 = read_fields (sdm_meta \<le> 0x04) [PICCDataOffset] data len s2;
                         s4 = read_fields (sdm_file \<noteq> 0x0F) [SDMMACInputOffset] data len s3;
                         s5 = read_fields (sdm_file \<noteq> 0x0F \<and> opts AND 0x10 \<noteq> 0) [SDMENCOffset, SDMENCLength] data len s4;
                         s6 = read_fields (sdm_file \<noteq> 0x0F) [SDMMACOffset] data len s5;
                         s7 = read_fields (opts AND 0x20 \<noteq> 0) [SDMReadCtrLimit] data len s6
                     in (fst s7, info2, snd (snd s7)))))"

section \<open>ChangeKey and ChangeFileSettings\<close>

text \<open>
  The array \<^verbatim>\<open>key_data\<close> that \<^verbatim>\<open>change_key\<close> fills (lines 919-926).
\<close>

definition change_key_data :: "bytes \<Rightarrow> bytes \<Rightarrow> byte \<Rightarrow> bytes" where
  "change_key_data old_key new_key key_ver =
     (let crc = crc32_ieee (take 16 new_key)
      in map (\<lambda>i. new_key ! i XOR old_key ! i) [0..<16]
         @ [key_ver,
            ucast (crc AND 0xFF),
            ucast (drop_bit 8 crc AND 0xFF),
            ucast (drop_bit 16 crc AND 0xFF),
            ucast (drop_bit 24 crc AND 0xFF)])"

text \<open>\<^verbatim>\<open>change_key\<close> (lines 916-933); \<^verbatim>\<open>resp\<close> has 16 bytes.\<close>

definition change_key ::
  "'c scard_transmit \<Rightarrow> cccrypt \<Rightarrow> 'c \<Rightarrow> ssm_session_t \<Rightarrow> byte \<Rightarrow> bytes \<Rightarrow> bytes \<Rightarrow> byte \<Rightarrow> 'c ssm_result" where
  "change_key tx cc crd sess keyno old_key new_key key_ver =
     (let key_data = change_key_data old_key new_key key_ver;
          header = [keyno]
      in ssm_cmd_full tx cc crd sess 0xC4 header key_data 16)"

text \<open>
  The buffer \<^verbatim>\<open>data[0..len)\<close> that \<^verbatim>\<open>change_file_settings_sdm\<close> fills (lines
  945-979).
\<close>

definition change_file_settings_sdm_data ::
  "byte \<Rightarrow> byte \<Rightarrow> byte \<Rightarrow> byte \<Rightarrow> byte \<Rightarrow> byte \<Rightarrow> byte \<Rightarrow> 32 word \<Rightarrow> 32 word \<Rightarrow> 32 word \<Rightarrow> 32 word \<Rightarrow> bytes" where
  "change_file_settings_sdm_data comm_mode a1 a2 opts sdm_meta sdm_file sdm_ctr
       uid_off sdm_read_ctr_off sdm_mac_input_off sdm_mac_off =
     (let fopt = (comm_mode AND 0x03) OR 0x40;
          sdm_ar = (push_bit 12 (ucast (sdm_meta AND 0x0F)) OR push_bit 8 (ucast (sdm_file AND 0x0F))
                    OR push_bit 4 0x0F OR ucast (sdm_ctr AND 0x0F) :: 16 word)
      in [fopt, a1, a2, opts, ucast (sdm_ar AND 0xFF), ucast (drop_bit 8 sdm_ar AND 0xFF)]
         @ (if opts AND 0x80 \<noteq> 0 \<and> sdm_meta = 0x0E then write_u24_le uid_off else [])
         @ (if opts AND 0x40 \<noteq> 0 \<and> sdm_meta = 0x0E then write_u24_le sdm_read_ctr_off else [])
         @ (if sdm_file \<noteq> 0x0F then write_u24_le sdm_mac_input_off else [])
         @ (if sdm_file \<noteq> 0x0F then write_u24_le sdm_mac_off else []))"


section \<open>The other commands\<close>










section \<open>Reference definitions\<close>

text \<open>
  The definitions of this section are not translations of the source: they state what
  the specification says, to compare the program with.
\<close>

subsection \<open>CMAC as RFC 4493 words it\<close>

text \<open>
  A 16-byte block is a 128-bit number, most significant byte first. The one-bit left
  shift doubles it modulo \<open>2 ^ 128\<close>; the carry-out is its top bit. The subkey of a
  block is its shift, with \<open>0x87\<close> XORed into the last byte when the top bit was set.
\<close>

definition be_nat :: "bytes \<Rightarrow> nat" where
  "be_nat bs = foldl (\<lambda>a b. a * 256 + unat b) 0 bs"

definition nat_be :: "nat \<Rightarrow> nat \<Rightarrow> bytes" where
  "nat_be len v = map (\<lambda>i. of_nat (v div 256 ^ (len - 1 - i))) [0..<len]"

definition rfc_shift1 :: "bytes \<Rightarrow> bytes" where
  "rfc_shift1 b = nat_be 16 ((be_nat b * 2) mod 2 ^ 128)"

definition rfc_subkey :: "bytes \<Rightarrow> bytes" where
  "rfc_subkey b =
     (let s = rfc_shift1 b
      in if 2 ^ 127 \<le> be_nat b then butlast s @ [last s XOR 0x87] else s)"

definition xor_bytes :: "bytes \<Rightarrow> bytes \<Rightarrow> bytes" where
  "xor_bytes a b = map2 (XOR) a b"

function blocks16 :: "bytes \<Rightarrow> bytes list" where
  "blocks16 m = (if m = [] then [] else take 16 m # blocks16 (drop 16 m))"
  by pat_completeness auto
termination
  by (relation "measure length") auto

declare blocks16.simps [simp del]

text \<open>
  \<open>E k b\<close> is the AES encryption of the block \<open>b\<close> under the key \<open>k\<close>. The message is
  cut into 16-byte blocks. The final block is the last full block XOR \<open>K1\<close> when the
  length is a non-zero multiple of 16, and otherwise the remainder, padded on the
  right with \<open>0x80\<close> and zeros, XOR \<open>K2\<close>. The tag is the CBC-MAC of the blocks with
  an all-zero initialisation vector.
\<close>

definition rfc4493_cmac :: "(bytes \<Rightarrow> bytes \<Rightarrow> bytes) \<Rightarrow> bytes \<Rightarrow> bytes \<Rightarrow> bytes" where
  "rfc4493_cmac E K M =
     (let K1 = rfc_subkey (E K (replicate 16 0));
          K2 = rfc_subkey K1;
          bs = blocks16 M;
          front = butlast bs;
          final = (if M \<noteq> [] \<and> length M mod 16 = 0 then xor_bytes (last bs) K1
                   else (let r = (if M = [] then [] else last bs)
                         in xor_bytes (r @ 0x80 # replicate (15 - length r) 0) K2))
      in foldl (\<lambda>x b. E K (xor_bytes x b)) (replicate 16 0) (front @ [final]))"

subsection \<open>The reflected CRC, bit by bit\<close>

text \<open>
  The reflected CRC of a message with polynomial \<open>poly\<close> (in reversed form) and
  initial value \<open>init\<close>, with no final inversion: the bits of the message enter one
  at a time, the least significant bit of each byte first; the register is shifted
  right, and \<open>poly\<close> is XORed in when the bit shifted out differs from the message
  bit.
\<close>

definition crc_bit :: "32 word \<Rightarrow> 32 word \<Rightarrow> bool \<Rightarrow> 32 word" where
  "crc_bit poly c b = (if bit c 0 \<noteq> b then drop_bit 1 c XOR poly else drop_bit 1 c)"

definition bits_lsb_first :: "byte \<Rightarrow> bool list" where
  "bits_lsb_first d = map (bit d) [0..<8]"

definition crc32_reflected :: "32 word \<Rightarrow> 32 word \<Rightarrow> bytes \<Rightarrow> 32 word" where
  "crc32_reflected poly init msg = foldl (crc_bit poly) init (concat (map bits_lsb_first msg))"

text \<open>The \<open>n\<close> little-endian bytes of a number.\<close>

definition le_bytes :: "nat \<Rightarrow> nat \<Rightarrow> bytes" where
  "le_bytes n v = map (\<lambda>i. of_nat (v div 256 ^ i mod 256)) [0..<n]"

text \<open>
  A byte string shifted left by one bit, said byte by byte: each byte is doubled and
  takes the top bit of the byte after it.
\<close>

definition shifted :: "bytes \<Rightarrow> bytes" where
  "shifted xs = map (\<lambda>i. push_bit 1 (xs ! i) OR (if Suc i = length xs then 0 else if xs ! Suc i AND 0x80 \<noteq> 0 then 1 else 0)) [0..<length xs]"



section \<open>A scripted reader and a toy cipher for the examples\<close>

text \<open>
  The examples below run the program against a reader that answers from a script
  and logs what it is sent: its state is the answers left and the APDUs received so
  far. With the script used up it reports an error.
\<close>

type_synonym script = "bytes list \<times> bytes list"

definition scripted :: "script scard_transmit" where
  "scripted st apdu =
     (case fst st of
        [] \<Rightarrow> ((1, []), ([], snd st @ [apdu]))
      | r # rs \<Rightarrow> ((SCARD_S_SUCCESS, r), (rs, snd st @ [apdu])))"

text \<open>
  In place of AES the examples use a keyed permutation of 16-byte blocks that can be
  followed by hand: a block is encrypted by XOR with the key. ECB and CBC are built
  on it as usual; input that is not a whole number of blocks is refused.
\<close>

function toy_cbc_encrypt :: "bytes \<Rightarrow> bytes \<Rightarrow> bytes \<Rightarrow> bytes" where
  "toy_cbc_encrypt key iv inp =
     (if inp = [] then []
      else (let c = xor_bytes (xor_bytes (take 16 inp) iv) key
            in c @ toy_cbc_encrypt key c (drop 16 inp)))"
  by pat_completeness auto
termination
  by (relation "measure (\<lambda>(key, iv, inp). length inp)") auto

function toy_cbc_decrypt :: "bytes \<Rightarrow> bytes \<Rightarrow> bytes \<Rightarrow> bytes" where
  "toy_cbc_decrypt key iv inp =
     (if inp = [] then []
      else xor_bytes (xor_bytes (take 16 inp) key) iv @ toy_cbc_decrypt key (take 16 inp) (drop 16 inp))"
  by pat_completeness auto
termination
  by (relation "measure (\<lambda>(key, iv, inp). length inp)") auto

declare toy_cbc_encrypt.simps [simp del]
declare toy_cbc_decrypt.simps [simp del]

definition toy_cc :: cccrypt where
  "toy_cc op options key iv inp =
     (if length key \<noteq> 16 \<or> length inp mod 16 \<noteq> 0 then (-4300, [])
      else if options = kCCOptionECBMode
      then (kCCSuccess, concat (map (\<lambda>b. xor_bytes b key) (blocks16 inp)))
      else (case iv of
              None \<Rightarrow> (-4300, [])
            | Some v \<Rightarrow>
                (case op of
                   kCCEncrypt \<Rightarrow> (kCCSuccess, toy_cbc_encrypt key v inp)
                 | kCCDecrypt \<Rightarrow> (kCCSuccess, toy_cbc_decrypt key v inp))))"

text \<open>
  A session for the examples, and two of its exchanges for the command
  \<^verbatim>\<open>0xF6\<close> with header \<^verbatim>\<open>02\<close>, no data and room for 16 bytes of output (the
  call at line 1480): one where the card's answer carries a wrong MAC (and the next
  answer in the script a right one), one where the MAC is right and the body
  decrypts to 17 bytes.
\<close>

definition demo_session :: ssm_session_t where
  "demo_session =
     \<lparr>kenc = [0x01, 0x02, 0x03, 0x04, 0x05, 0x06, 0x07, 0x08, 0x09, 0x0A, 0x0B, 0x0C, 0x0D, 0x0E, 0x0F, 0x10],
      kmac = [0x11, 0x12, 0x13, 0x14, 0x15, 0x16, 0x17, 0x18, 0x19, 0x1A, 0x1B, 0x1C, 0x1D, 0x1E, 0x1F, 0x20],
      ti = [0x11, 0x22, 0x33, 0x44], cmd_ctr = 0, key_no = 0, authenticated = True\<rparr>"

definition demo_bad_mac_run :: "script ssm_result" where
  "demo_bad_mac_run =
     ssm_cmd_full scripted toy_cc
       ([[0x00, 0x00, 0x00, 0x00, 0x00, 0x00, 0x00, 0x00, 0x91, 0x00],
         [0x5B, 0x55, 0x7D, 0xF8, 0x72, 0x6C, 0x66, 0xA0, 0x91, 0x00]], [])
       demo_session 0xF6 [0x02] [] 16"

definition demo_long_body :: bytes where
  "demo_long_body =
     [0x5B, 0xA7, 0x12, 0x26, 0x36, 0x42, 0x06, 0x08, 0x09, 0x0A, 0x0B, 0x0C, 0x0D, 0x0E, 0x0F, 0x10,
      0x4B, 0x25, 0x11, 0x22, 0x33, 0x44, 0x01, 0x00, 0x00, 0x00, 0x00, 0x00, 0x00, 0x00, 0x00, 0x00]"

definition demo_long_body_run :: "script ssm_result" where
  "demo_long_body_run =
     ssm_cmd_full scripted toy_cc
       ([demo_long_body @ [0x50, 0x58, 0x72, 0xE8, 0x71, 0x69, 0x61, 0xA9] @ [0x91, 0x00]], [])
       demo_session 0xF6 [0x02] [] 16"

text \<open>
  A handshake for the examples: the long-term key, the host nonce \<open>RndA\<close>, the
  zeroed session struct the program starts from, and a script of the two answers of
  a card whose nonce \<open>RndB\<close> is \<^verbatim>\<open>CAFEBABEDEADBEEF0123456789ABCDEF\<close> and whose
  transaction identifier is \<^verbatim>\<open>11223344\<close>, under the toy cipher.
\<close>

definition demo_key :: bytes where
  "demo_key = [0xA0, 0xA1, 0xA2, 0xA3, 0xA4, 0xA5, 0xA6, 0xA7, 0xA8, 0xA9, 0xAA, 0xAB, 0xAC, 0xAD, 0xAE, 0xAF]"

definition demo_rndA :: bytes where
  "demo_rndA = [0x00, 0x11, 0x22, 0x33, 0x44, 0x55, 0x66, 0x77, 0x88, 0x99, 0xAA, 0xBB, 0xCC, 0xDD, 0xEE, 0xFF]"

definition demo_rndB :: bytes where
  "demo_rndB = [0xCA, 0xFE, 0xBA, 0xBE, 0xDE, 0xAD, 0xBE, 0xEF, 0x01, 0x23, 0x45, 0x67, 0x89, 0xAB, 0xCD, 0xEF]"

definition zero_session :: ssm_session_t where
  "zero_session = \<lparr>kenc = replicate 16 0, kmac = replicate 16 0, ti = replicate 4 0,
                    cmd_ctr = 0, key_no = 0, authenticated = False\<rparr>"

definition demo_ev2_script :: script where
  "demo_ev2_script =
     ([[0x6A, 0x5F, 0x18, 0x1D, 0x7A, 0x08, 0x18, 0x48, 0xA9, 0x8A, 0xEF, 0xCC, 0x25, 0x06, 0x63, 0x40,
        0x91, 0xAF],
       [0xB1, 0x83, 0x91, 0xE7, 0xB5, 0x87, 0x95, 0xE3, 0xFD, 0xCF, 0xDD, 0x23, 0x35, 0x07, 0x15, 0x63,
        0xCC, 0xCC, 0xCC, 0x44, 0x11, 0x22, 0x33, 0x44, 0x55, 0x66, 0x77, 0x88, 0x99, 0xAA, 0xBB, 0xCC,
        0x91, 0x00]], [])"

section \<open>Padding round trip\<close>

lemma unpad_scan_zeros:
  "(\<And>j. k \<le> j \<Longrightarrow> j < k + n \<Longrightarrow> buf ! j = 0) \<Longrightarrow>
   unpad_scan buf (int (k + n) - 1) = unpad_scan buf (int k - 1)"
proof (induction n)
  case 0
  then show ?case by simp
next
  case (Suc n)
  have z: "buf ! (k + n) = 0" using Suc.prems [of "k + n"] by simp
  have idx: "nat (int (k + Suc n) - 1) = k + n" by simp
  have "unpad_scan buf (int (k + Suc n) - 1) = unpad_scan buf (int (k + Suc n) - 1 - 1)"
    by (subst unpad_scan.simps) (simp only: idx z, simp)
  also have "int (k + Suc n) - 1 - 1 = int (k + n) - 1" by simp
  also have "unpad_scan buf (int (k + n) - 1) = unpad_scan buf (int k - 1)"
    using Suc.prems by (intro Suc.IH) simp
  finally show ?case .
qed

lemma unpad_scan_stop:
  "unpad_scan (xs @ [0x80] @ ys) (int (length xs)) = int (length xs)"
  by (subst unpad_scan.simps) (simp add: nth_append)

lemma length_pad_iso9797_m2:
  "length (pad_iso9797_m2 d) = length d + (16 - length d mod 16)"
  by (simp add: pad_iso9797_m2_def Let_def)

text \<open>
  Claim C9. For every byte string \<open>D\<close> (in particular for \<open>0 \<le> |D| \<le> 256\<close>),
  unpadding the ISO 9797-1 M2 padding of \<open>D\<close> gives back exactly \<open>D\<close>: the length
  returned by \<open>unpad_iso9797_m2\<close> on the padded buffer is \<open>|D|\<close>, and the first \<open>|D|\<close>
  bytes of the buffer are \<open>D\<close>.
\<close>

theorem unpad_pad_roundtrip:
  "take (unpad_iso9797_m2 (pad_iso9797_m2 d) (length (pad_iso9797_m2 d))) (pad_iso9797_m2 d) = d"
proof -
  define n where "n = 16 - length d mod 16 - 1"
  define p where "p = pad_iso9797_m2 d"
  have pad: "p = d @ [0x80] @ replicate n 0"
    by (simp add: p_def pad_iso9797_m2_def Let_def n_def)
  have len: "length p = Suc (length d) + n"
    by (simp add: pad)
  have zeros: "\<And>j. Suc (length d) \<le> j \<Longrightarrow> j < Suc (length d) + n \<Longrightarrow> p ! j = 0"
    by (simp add: pad nth_append nth_Cons')
  have "unpad_scan p (int (length p) - 1) = unpad_scan p (int (Suc (length d)) - 1)"
    unfolding len using zeros by (rule unpad_scan_zeros)
  also have "\<dots> = unpad_scan (d @ [0x80] @ replicate n 0) (int (length d))"
    by (simp add: pad)
  also have "\<dots> = int (length d)"
    by (rule unpad_scan_stop)
  finally have scan: "unpad_scan p (int (length p) - 1) = int (length d)" .
  have nth: "p ! length d = 0x80"
    by (simp add: pad nth_append)
  have pos: "length p \<noteq> 0"
    by (simp add: len)
  have "unpad_iso9797_m2 p (length p) = length d"
    unfolding unpad_iso9797_m2_def Let_def scan using nth pos by simp
  then show ?thesis unfolding p_def [symmetric] by (simp add: pad)
qed

theorem unpad_pad_roundtrip_witness:
  "take (unpad_iso9797_m2 (pad_iso9797_m2 [1, 2, 3]) (length (pad_iso9797_m2 [1, 2, 3])))
     (pad_iso9797_m2 [1, 2, 3]) = [1, 2, 3]"
  by (rule unpad_pad_roundtrip)

section \<open>The NDEF template of the example URL\<close>

text \<open>
  The template for the default base URL of the program, in full: 73 bytes.
\<close>

lemma build_sdm_ndef_tap:
  "build_sdm_ndef ''https://example.com/tap'' =
     Some \<lparr>ndef = [0x00, 0x47, 0xD1, 0x01, 0x43, 0x55, 0x04] @ cstr ''example.com/tap?uid=00000000000000&ctr=000000&mac=0000000000000000'',
           ndef_len = 73, uid_offset = 27, ctr_offset = 46, mac_input_offset = 23, mac_offset = 57,
           url = cstr ''https://example.com/tap?uid=00000000000000&ctr=000000&mac=0000000000000000''\<rparr>"
  by code_simp

text \<open>
  Claim C6, as the program has it. For the base URL \<open>https://example.com/tap\<close> the
  builder succeeds; the record length is \<open>0x47\<close> and the payload length \<open>0x43\<close>, so
  the buffer begins \<open>00 47 D1 01 43 55 04\<close>, followed by \<open>example.com/tap?uid=\<close>; the
  offsets are 27 (UID), 46 (counter), 57 (MAC) and 23 (MAC input).
\<close>

theorem build_sdm_ndef_example:
  "map_option (take 27 \<circ> ndef) (build_sdm_ndef ''https://example.com/tap'')
     = Some [0x00, 0x47, 0xD1, 0x01, 0x43, 0x55, 0x04, 0x65, 0x78, 0x61, 0x6D, 0x70, 0x6C, 0x65,
             0x2E, 0x63, 0x6F, 0x6D, 0x2F, 0x74, 0x61, 0x70, 0x3F, 0x75, 0x69, 0x64, 0x3D]
   \<and> map_option uid_offset (build_sdm_ndef ''https://example.com/tap'') = Some 27
   \<and> map_option ctr_offset (build_sdm_ndef ''https://example.com/tap'') = Some 46
   \<and> map_option mac_offset (build_sdm_ndef ''https://example.com/tap'') = Some 57
   \<and> map_option mac_input_offset (build_sdm_ndef ''https://example.com/tap'') = Some 23"
  by (simp add: build_sdm_ndef_tap cstr_def)

theorem build_sdm_ndef_example_witness:
  "build_sdm_ndef ''https://example.com/tap'' \<noteq> None"
  using build_sdm_ndef_example by auto

text \<open>
  The claim as the specification states it (record length \<open>0x3C\<close>, payload length
  \<open>0x38\<close>, MAC offset 58) is false of the program.
\<close>

theorem build_sdm_ndef_example_counterexample:
  "map_option (take 27 \<circ> ndef) (build_sdm_ndef ''https://example.com/tap'')
     \<noteq> Some [0x00, 0x3C, 0xD1, 0x01, 0x38, 0x55, 0x04, 0x65, 0x78, 0x61, 0x6D, 0x70, 0x6C, 0x65,
             0x2E, 0x63, 0x6F, 0x6D, 0x2F, 0x74, 0x61, 0x70, 0x3F, 0x75, 0x69, 0x64, 0x3D]
   \<and> map_option mac_offset (build_sdm_ndef ''https://example.com/tap'') \<noteq> Some 58"
  by (simp add: build_sdm_ndef_tap cstr_def)

section \<open>Building and parsing file settings\<close>

lemma and_ff: "w AND 0xFF = take_bit 8 w" for w :: "'a::len word"
proof -
  have "(0xFF :: 'a word) = mask 8" by (simp add: mask_eq_exp_minus_1)
  then show ?thesis by (simp add: take_bit_eq_mask)
qed

lemma and_0f: "w AND 0x0F = take_bit 4 w" for w :: "'a::len word"
proof -
  have "(0x0F :: 'a word) = mask 4" by (simp add: mask_eq_exp_minus_1)
  then show ?thesis by (simp add: take_bit_eq_mask)
qed

lemma split16:
  fixes w :: "16 word"
  shows "(ucast (ucast (w AND 0xFF) :: byte) OR push_bit 8 (ucast (ucast (drop_bit 8 w AND 0xFF) :: byte))) = w"
  unfolding and_ff
  by (rule bit_word_eqI) (auto simp: bit_simps)

lemma u24_roundtrip:
  fixes v :: "32 word"
  assumes "v < 2 ^ 24"
  shows "read_u24_le (pre @ write_u24_le v @ post) (length pre) = v"
proof -
  have tb: "take_bit 24 v = v"
    using less_mask_eq [OF assms] by (simp add: take_bit_eq_mask)
  have "read_u24_le (pre @ write_u24_le v @ post) (length pre) = take_bit 24 v"
    unfolding read_u24_le_def write_u24_le_def and_ff
    apply (simp add: nth_append)
    apply (rule bit_word_eqI)
    subgoal for n
      by (cases "n < 16") (auto simp: bit_simps)
    done
  then show ?thesis by (simp add: tb)
qed


lemma nib: "m \<le> 0x0F \<Longrightarrow> take_bit 4 m = m" for m :: byte
proof -
  assume "m \<le> 0x0F"
  then have "m < 2 ^ 4" by (simp add: word_le_nat_alt word_less_nat_alt)
  from less_mask_eq [OF this] show ?thesis by (simp add: take_bit_eq_mask)
qed

lemma sdm_ar_nibbles:
  fixes m f c :: byte
  defines "w \<equiv> (push_bit 12 (ucast (take_bit 4 m)) OR push_bit 8 (ucast (take_bit 4 f))
                    OR push_bit 4 0x0F OR ucast (take_bit 4 c) :: 16 word)"
  shows "(ucast (take_bit 4 (drop_bit 12 w)) :: byte) = take_bit 4 m"
    and "(ucast (take_bit 4 (drop_bit 8 w)) :: byte) = take_bit 4 f"
    and "(ucast (take_bit 4 w) :: byte) = take_bit 4 c"
proof -
  have f: "(0x0F :: 16 word) = mask 4" by (simp add: mask_eq_exp_minus_1)
  show "(ucast (take_bit 4 (drop_bit 12 w)) :: byte) = take_bit 4 m"
    unfolding w_def f by (rule bit_word_eqI) (auto simp: bit_simps)
  show "(ucast (take_bit 4 (drop_bit 8 w)) :: byte) = take_bit 4 f"
    unfolding w_def f by (rule bit_word_eqI) (auto simp: bit_simps)
  show "(ucast (take_bit 4 w) :: byte) = take_bit 4 c"
    unfolding w_def f by (rule bit_word_eqI) (auto simp: bit_simps)
qed

lemma u24_core:
  fixes v :: "32 word"
  assumes "v < 2 ^ 24"
  shows "ucast (ucast (v AND 0xFF) :: byte) OR push_bit 8 (ucast (ucast (drop_bit 8 v AND 0xFF) :: byte))
         OR push_bit 16 (ucast (ucast (drop_bit 16 v AND 0xFF) :: byte)) = v"
  using u24_roundtrip [OF assms, of "[]" "[]"]
  by (simp add: read_u24_le_def write_u24_le_def)

lemma cm3: "cm \<le> 3 \<Longrightarrow> cm AND 3 = cm" for cm :: byte
proof -
  assume "cm \<le> 3"
  then have "cm < 2 ^ 2" by (simp add: word_le_nat_alt word_less_nat_alt)
  from less_mask_eq [OF this] show ?thesis by (simp add: mask_eq_exp_minus_1)
qed

lemma or40: "(cm OR 0x40) AND 0x40 \<noteq> 0" for cm :: byte
proof -
  have "bit ((cm OR 0x40) AND 0x40) 6" by (simp add: bit_simps)
  then show ?thesis by auto
qed


lemma read_fields_absent: "read_fields False names data len st = st"
  by (simp add: read_fields_def split: prod.splits)

lemma read_fields_opt:
  assumes "data = pre @ (if p then write_u24_le v else []) @ post" and "v < 2 ^ 24"
  shows "read_fields p [nm] data (length data) (True, length pre, pr)
         = (True, length (pre @ (if p then write_u24_le v else [])), pr @ (if p then [(nm, v)] else []))"
proof (cases p)
  case False
  then show ?thesis by (simp add: read_fields_absent)
next
  case True
  have len3: "length (write_u24_le v) = 3" by (simp add: write_u24_le_def)
  have rd: "read_u24_le data (length pre) = v"
    using u24_roundtrip [OF assms(2), of pre post] assms(1) True by simp
  show ?thesis
    using True rd by (simp add: read_fields_def assms(1) len3)
qed

text \<open>
  Claim C4, as the program has it. The payload that \<open>change_file_settings_sdm_data\<close>
  builds begins with FileOption, AR1, AR2, while \<open>parse_file_settings\<close> reads the
  layout of a GetFileSettings answer: FileType, FileOption, AR1, AR2, FileSize (3
  bytes), then the SDM tail. For every valid input (communication mode at most 3,
  the three nibbles at most 15, the four offsets below \<open>2 ^ 24\<close>), the payload put
  into that layout (any FileType byte \<open>ft\<close> in front, any three FileSize bytes after
  AR2) parses to a struct that holds FileOption \<open>cm OR 0x40\<close>, AR1, AR2, SDMOptions
  and the three nibbles of the input. When moreover the tail that the parser expects
  is the one that is built (SDMMetaRead above 4, bit 0x20 of SDMOptions clear, and
  SDMFileRead 15 or bit 0x10 clear), the parser returns 1 and the offsets it reads
  are the offsets built, in order.
\<close>

theorem parse_build_roundtrip:
  fixes cm a1 a2 opts sdm_meta sdm_file sdm_ctr :: byte
  assumes "cm \<le> 3" "sdm_meta \<le> 0x0F" "sdm_file \<le> 0x0F" "sdm_ctr \<le> 0x0F"
    and "u < 2 ^ 24" "c < 2 ^ 24" "mi < 2 ^ 24" "m < 2 ^ 24"
    and b: "b = change_file_settings_sdm_data cm a1 a2 opts sdm_meta sdm_file sdm_ctr u c mi m"
    and r: "r = parse_file_settings (ft # take 3 b @ [s0, s1, s2] @ drop 3 b) (length b + 4)"
  shows "fst (snd r) = \<lparr>valid = True, sdm_enabled = True, sdm_read_ctr_enabled = (opts AND 0x40 \<noteq> 0),
              file_option = cm OR 0x40, sdm_options = opts, sdm_meta_read = sdm_meta,
              sdm_file_read = sdm_file, sdm_ctr_ret = sdm_ctr, ar1 = a1, ar2 = a2,
              file_size = read_u24_le [s0, s1, s2] 0\<rparr>
         \<and> (4 < sdm_meta \<and> opts AND 0x20 = 0 \<and> (sdm_file = 0x0F \<or> opts AND 0x10 = 0) \<longrightarrow>
              fst r \<and>
              snd (snd r) =
                (if opts AND 0x80 \<noteq> 0 \<and> sdm_meta = 0x0E then [(UIDOffset, u)] else [])
                @ (if opts AND 0x40 \<noteq> 0 \<and> sdm_meta = 0x0E then [(SDMReadCtrOffset, c)] else [])
                @ (if sdm_file \<noteq> 0x0F then [(SDMMACInputOffset, mi), (SDMMACOffset, m)] else []))"
proof -
  define w :: "16 word" where
    "w = push_bit 12 (ucast (sdm_meta AND 0x0F)) OR push_bit 8 (ucast (sdm_file AND 0x0F))
         OR push_bit 4 0x0F OR ucast (sdm_ctr AND 0x0F)"
  define A where "A = (opts AND 0x80 \<noteq> 0 \<and> sdm_meta = 0x0E)"
  define B where "B = (opts AND 0x40 \<noteq> 0 \<and> sdm_meta = 0x0E)"
  define F where "F = (sdm_file \<noteq> 0x0F)"
  define TA where "TA = (if A then write_u24_le u else [])"
  define TB where "TB = (if B then write_u24_le c else [])"
  define TF1 where "TF1 = (if F then write_u24_le mi else [])"
  define TF2 where "TF2 = (if F then write_u24_le m else [])"
  define hdr where "hdr = [ft, cm OR 0x40, a1, a2, s0, s1, s2, opts, ucast (w AND 0xFF), ucast (drop_bit 8 w AND 0xFF)]"
  define data where "data = hdr @ TA @ TB @ TF1 @ TF2"
  have nibs: "ucast (drop_bit 12 w AND 0x0F) = sdm_meta" "ucast (drop_bit 8 w AND 0x0F) = sdm_file"
    "ucast (w AND 0x0F) = sdm_ctr"
    using sdm_ar_nibbles [of sdm_meta sdm_file sdm_ctr]
    unfolding w_def and_0f nib [OF assms(2)] nib [OF assms(3)] nib [OF assms(4)]
    by simp_all
  have bdef: "b = [cm OR 0x40, a1, a2, opts, ucast (w AND 0xFF), ucast (drop_bit 8 w AND 0xFF)] @ TA @ TB @ TF1 @ TF2"
    unfolding b change_file_settings_sdm_data_def Let_def w_def TA_def TB_def TF1_def TF2_def A_def B_def F_def
      cm3 [OF assms(1)]
    by (rule refl)
  have framed: "ft # take 3 b @ [s0, s1, s2] @ drop 3 b = data"
    unfolding bdef data_def hdr_def by simp
  have lenb: "length b + 4 = length data"
    unfolding bdef data_def hdr_def by simp
  have lenhdr: "length hdr = 10" by (simp add: hdr_def)
  have len10: "\<not> length data < 7" "\<not> length data < 7 + 3"
    by (simp_all add: data_def lenhdr)
  have hd: "data ! 1 = cm OR 0x40" "data ! 2 = a1" "data ! 3 = a2" "data ! 7 = opts"
    "data ! 8 = ucast (w AND 0xFF)" "data ! 9 = ucast (drop_bit 8 w AND 0xFF)"
    "read_u24_le data 4 = read_u24_le [s0, s1, s2] 0"
    by (simp_all add: data_def hdr_def read_u24_le_def)
  define s1' where "s1' = read_fields A [UIDOffset] data (length data) (True, 10, [])"
  define s2' where "s2' = read_fields B [SDMReadCtrOffset] data (length data) s1'"
  define s3' where "s3' = read_fields (sdm_meta \<le> 0x04) [PICCDataOffset] data (length data) s2'"
  define s4' where "s4' = read_fields F [SDMMACInputOffset] data (length data) s3'"
  define s5' where "s5' = read_fields (F \<and> opts AND 0x10 \<noteq> 0) [SDMENCOffset, SDMENCLength] data (length data) s4'"
  define s6' where "s6' = read_fields F [SDMMACOffset] data (length data) s5'"
  define s7' where "s7' = read_fields (opts AND 0x20 \<noteq> 0) [SDMReadCtrLimit] data (length data) s6'"
  have rr: "r = (fst s7', \<lparr>valid = True, sdm_enabled = True, sdm_read_ctr_enabled = (opts AND 0x40 \<noteq> 0),
              file_option = cm OR 0x40, sdm_options = opts, sdm_meta_read = sdm_meta,
              sdm_file_read = sdm_file, sdm_ctr_ret = sdm_ctr, ar1 = a1, ar2 = a2,
              file_size = read_u24_le [s0, s1, s2] 0\<rparr>, snd (snd s7'))"
    unfolding r framed lenb parse_file_settings_def Let_def hd split16 nibs
      s7'_def s6'_def s5'_def s4'_def s3'_def s2'_def s1'_def A_def B_def F_def
    using len10 by (simp add: or40 info_zero_def)
  have info: "fst (snd r) = \<lparr>valid = True, sdm_enabled = True, sdm_read_ctr_enabled = (opts AND 0x40 \<noteq> 0),
              file_option = cm OR 0x40, sdm_options = opts, sdm_meta_read = sdm_meta,
              sdm_file_read = sdm_file, sdm_ctr_ret = sdm_ctr, ar1 = a1, ar2 = a2,
              file_size = read_u24_le [s0, s1, s2] 0\<rparr>"
    by (simp add: rr)
  have tail: "fst r \<and> snd (snd r) =
                (if A then [(UIDOffset, u)] else []) @ (if B then [(SDMReadCtrOffset, c)] else [])
                @ (if F then [(SDMMACInputOffset, mi), (SDMMACOffset, m)] else [])"
    if c1: "4 < sdm_meta" and c2: "opts AND 0x20 = 0" and c3: "sdm_file = 0x0F \<or> opts AND 0x10 = 0"
  proof -
    have e1: "s1' = (True, length (hdr @ TA), (if A then [(UIDOffset, u)] else []))"
      unfolding s1'_def TA_def
      using read_fields_opt [of data hdr A u "TB @ TF1 @ TF2" UIDOffset "[]", OF _ assms(5)]
      by (simp add: data_def TA_def lenhdr)
    have e2: "s2' = (True, length ((hdr @ TA) @ TB), (if A then [(UIDOffset, u)] else []) @ (if B then [(SDMReadCtrOffset, c)] else []))"
      unfolding s2'_def e1 TB_def
      using read_fields_opt [of data "hdr @ TA" B c "TF1 @ TF2" SDMReadCtrOffset, OF _ assms(6)]
      by (simp add: data_def TB_def)
    have e3: "s3' = s2'"
      proof -
      have "\<not> sdm_meta \<le> 0x04" using c1 by (simp add: not_le)
      then show ?thesis unfolding s3'_def by (simp add: read_fields_absent)
    qed
    have e4: "s4' = (True, length (((hdr @ TA) @ TB) @ TF1),
                ((if A then [(UIDOffset, u)] else []) @ (if B then [(SDMReadCtrOffset, c)] else []))
                @ (if F then [(SDMMACInputOffset, mi)] else []))"
      unfolding s4'_def e3 e2 TF1_def
      using read_fields_opt [of data "(hdr @ TA) @ TB" F mi "TF2" SDMMACInputOffset, OF _ assms(7)]
      by (simp add: data_def TF1_def)
    have e5: "s5' = s4'"
      unfolding s5'_def using c3 by (auto simp: read_fields_absent F_def)
    have e6: "s6' = (True, length ((((hdr @ TA) @ TB) @ TF1) @ TF2),
                (((if A then [(UIDOffset, u)] else []) @ (if B then [(SDMReadCtrOffset, c)] else []))
                @ (if F then [(SDMMACInputOffset, mi)] else [])) @ (if F then [(SDMMACOffset, m)] else []))"
      unfolding s6'_def e5 e4 TF2_def
      using read_fields_opt [of data "((hdr @ TA) @ TB) @ TF1" F m "[]" SDMMACOffset, OF _ assms(8)]
      by (simp add: data_def TF2_def)
    have e7: "s7' = s6'"
      unfolding s7'_def using c2 by (simp add: read_fields_absent)
    show ?thesis by (simp add: rr e7 e6)
  qed
  show ?thesis
    using info tail unfolding A_def B_def F_def by blast
qed

theorem parse_build_roundtrip_witness:
  "(0 :: byte) \<le> 3 \<and> (0x0E :: byte) \<le> 0x0F \<and> (1 :: byte) \<le> 0x0F
   \<and> (27 :: 32 word) < 2 ^ 24 \<and> (46 :: 32 word) < 2 ^ 24 \<and> (23 :: 32 word) < 2 ^ 24 \<and> (57 :: 32 word) < 2 ^ 24
   \<and> fst (parse_file_settings
          (0x00 # take 3 (change_file_settings_sdm_data 0 0xE0 0xEE 0xC1 0x0E 1 1 27 46 23 57)
           @ [0x00, 0x01, 0x00] @ drop 3 (change_file_settings_sdm_data 0 0xE0 0xEE 0xC1 0x0E 1 1 27 46 23 57))
          (length (change_file_settings_sdm_data 0 0xE0 0xEE 0xC1 0x0E 1 1 27 46 23 57) + 4))
   \<and> snd (snd (parse_file_settings
          (0x00 # take 3 (change_file_settings_sdm_data 0 0xE0 0xEE 0xC1 0x0E 1 1 27 46 23 57)
           @ [0x00, 0x01, 0x00] @ drop 3 (change_file_settings_sdm_data 0 0xE0 0xEE 0xC1 0x0E 1 1 27 46 23 57))
          (length (change_file_settings_sdm_data 0 0xE0 0xEE 0xC1 0x0E 1 1 27 46 23 57) + 4)))
       = [(UIDOffset, 27), (SDMReadCtrOffset, 46), (SDMMACInputOffset, 23), (SDMMACOffset, 57)]"
proof -
  have v: "(0 :: byte) \<le> 3" "(0x0E :: byte) \<le> 0x0F" "(1 :: byte) \<le> 0x0F"
    "(27 :: 32 word) < 2 ^ 24" "(46 :: 32 word) < 2 ^ 24" "(23 :: 32 word) < 2 ^ 24" "(57 :: 32 word) < 2 ^ 24"
    by simp_all
  have c: "4 < (0x0E :: byte) \<and> (0xC1 :: byte) AND 0x20 = 0 \<and> ((1 :: byte) = 0x0F \<or> (0xC1 :: byte) AND 0x10 = 0)"
    by simp
  from parse_build_roundtrip [where ?a1.0 = "0xE0" and ?a2.0 = "0xEE" and opts = "0xC1" and ft = "0x00"
      and ?s0.0 = "0x00" and ?s1.0 = "0x01" and ?s2.0 = "0x00", OF v(1) v(2) v(3) v(3) v(4) v(5) v(6) v(7) refl refl] c v
  show ?thesis by simp
qed

text \<open>
  The claim as the specification states it fails: parsing the payload itself, built
  from the values the program uses, returns 0 and reads AR2 where AR1 is expected.
\<close>

theorem parse_build_counterexample:
  "fst (parse_file_settings (change_file_settings_sdm_data 0 0xE0 0xEE 0xC1 0x0E 1 1 27 46 23 57) 18) = False
   \<and> ar1 (fst (snd (parse_file_settings (change_file_settings_sdm_data 0 0xE0 0xEE 0xC1 0x0E 1 1 27 46 23 57) 18))) \<noteq> 0xE0"
  by code_simp

section \<open>Secure messaging: what a call does to the session\<close>

lemma ssm_unwrap_cases:
  "ssm_unwrap cc sess sw resp cap = (ok, sess', plain) \<Longrightarrow>
     (ok \<and> sess' = sess\<lparr>cmd_ctr := cmd_ctr sess + 1\<rparr>) \<or> (\<not> ok \<and> sess' = sess \<and> plain = [])"
  unfolding ssm_unwrap_def Let_def case_prod_unfold
  by (simp split: if_splits option.splits)

lemma ssm_cmd_full_cases:
  "(ret (ssm_cmd_full tx cc crd sess cmd hdr data cap)
      \<and> sess_out (ssm_cmd_full tx cc crd sess cmd hdr data cap) = sess\<lparr>cmd_ctr := cmd_ctr sess + 1\<rparr>)
   \<or> (\<not> ret (ssm_cmd_full tx cc crd sess cmd hdr data cap)
      \<and> sess_out (ssm_cmd_full tx cc crd sess cmd hdr data cap) = sess
      \<and> out_data (ssm_cmd_full tx cc crd sess cmd hdr data cap) = [])"
  unfolding ssm_cmd_full_def Let_def case_prod_unfold
  using ssm_unwrap_cases [of cc sess _ _ cap]
  by (simp split: if_splits option.splits)

text \<open>
  Claim C10. Whatever the transport, the cipher, the session and the arguments, and
  whether the call succeeds or fails, \<open>ssm_cmd_full\<close> leaves the fields \<open>kenc\<close>,
  \<open>kmac\<close>, \<open>ti\<close> and \<open>key_no\<close> (and \<open>authenticated\<close>) of the session as they were:
  the session afterwards is the session before with at most \<open>cmd_ctr\<close> changed.
\<close>

theorem ssm_cmd_full_frame:
  "kenc (sess_out (ssm_cmd_full tx cc crd sess cmd hdr data cap)) = kenc sess
   \<and> kmac (sess_out (ssm_cmd_full tx cc crd sess cmd hdr data cap)) = kmac sess
   \<and> ti (sess_out (ssm_cmd_full tx cc crd sess cmd hdr data cap)) = ti sess
   \<and> key_no (sess_out (ssm_cmd_full tx cc crd sess cmd hdr data cap)) = key_no sess
   \<and> authenticated (sess_out (ssm_cmd_full tx cc crd sess cmd hdr data cap)) = authenticated sess
   \<and> sess_out (ssm_cmd_full tx cc crd sess cmd hdr data cap)
       = sess\<lparr>cmd_ctr := cmd_ctr (sess_out (ssm_cmd_full tx cc crd sess cmd hdr data cap))\<rparr>"
  using ssm_cmd_full_cases [of tx cc crd sess cmd hdr data cap]
  by auto


lemma transmit_received:
  "tx crd apdu = ((SCARD_S_SUCCESS, body @ [s1, s2]), crd') \<Longrightarrow>
   transmit tx crd apdu sw0 = ((SCARD_S_SUCCESS, body, push_bit 8 (ucast s1) OR ucast s2), crd')"
  by (simp add: transmit_def nth_append)


lemma sw_class_91:
  "(0x9100 OR ucast (sw2 :: byte) :: 16 word) AND 0xFF00 = 0x9100"
proof -
  have a: "(0x9100 :: 16 word) = push_bit 8 (ucast (0x91 :: byte))" by simp
  have m: "(0xFF00 :: 16 word) = push_bit 8 (mask 8)" by (simp add: mask_eq_exp_minus_1)
  have core: "(push_bit 8 (ucast x) OR ucast sw2 :: 16 word) AND push_bit 8 (mask 8) = push_bit 8 (ucast x)"
    for x :: byte
    by (rule bit_word_eqI) (auto simp: bit_simps dest: bit_imp_le_length)
  show ?thesis unfolding a m by (rule core)
qed

lemma ssm_response_mac_length:
  "ssm_response_mac cc sess sw C = Some m \<Longrightarrow> length m = 8"
  by (auto simp: ssm_response_mac_def Let_def cmac_truncate_8_def split: prod.splits if_splits)

lemma ssm_unwrap_split:
  assumes "length RMACt = 8" and "sw AND 0xFF00 = 0x9100"
  shows "ssm_unwrap cc sess sw (C @ RMACt) cap =
     (if \<not> fst (ssm_response_iv cc sess) then (False, sess, [])
      else (case ssm_response_mac cc sess sw C of
              None \<Rightarrow> (False, sess, [])
            | Some m \<Rightarrow>
                if RMACt \<noteq> m then (False, sess, [])
                else if C \<noteq> []
                then (if \<not> fst (aes_cbc_crypt cc False (kenc sess) (snd (ssm_response_iv cc sess)) C (length C))
                      then (False, sess, [])
                      else if unpad_iso9797_m2 (snd (aes_cbc_crypt cc False (kenc sess) (snd (ssm_response_iv cc sess)) C (length C))) (length C) > cap
                      then (False, sess, [])
                      else (True, sess\<lparr>cmd_ctr := cmd_ctr sess + 1\<rparr>,
                            take (unpad_iso9797_m2 (snd (aes_cbc_crypt cc False (kenc sess) (snd (ssm_response_iv cc sess)) C (length C))) (length C))
                              (snd (aes_cbc_crypt cc False (kenc sess) (snd (ssm_response_iv cc sess)) C (length C)))))
                else (True, sess\<lparr>cmd_ctr := cmd_ctr sess + 1\<rparr>, [])))"
proof (cases "ssm_response_mac cc sess sw C")
  case None
  then show ?thesis
    using assms unfolding ssm_unwrap_def Let_def
    by (simp add: case_prod_unfold)
next
  case (Some m)
  have "length m = 8" using Some by (rule ssm_response_mac_length)
  then show ?thesis
    using assms Some unfolding ssm_unwrap_def Let_def
    by (simp add: case_prod_unfold)
qed

lemma ssm_cmd_full_received:
  assumes "authenticated sess" and "ssm_wrap cc sess cmd hdr data = Some apdu"
    and "tx crd apdu = ((SCARD_S_SUCCESS, body @ [s1, s2]), crd')"
  shows "ssm_cmd_full tx cc crd sess cmd hdr data cap =
     \<lparr>ret = fst (ssm_unwrap cc sess (push_bit 8 (ucast s1) OR ucast s2) body cap),
      sess_out = fst (snd (ssm_unwrap cc sess (push_bit 8 (ucast s1) OR ucast s2) body cap)),
      card_out = crd',
      out_data = snd (snd (ssm_unwrap cc sess (push_bit 8 (ucast s1) OR ucast s2) body cap)),
      sw_out = Some (push_bit 8 (ucast s1) OR ucast s2)\<rparr>"
  using assms
  by (simp add: ssm_cmd_full_def transmit_received case_prod_unfold Let_def)

text \<open>
  Claim C1, as the program has it. When an authenticated session's wrapped command
  was transmitted, the answer has status \<open>0x91XX\<close> and at least 8 bytes of body, and
  the truncated CMAC computed over \<open>SW2 || CmdCtr+1 || TI || C\<close> differs from the 8
  bytes received, \<open>ssm_cmd_full\<close> returns 0 and leaves the session exactly as it was:
  the \<open>authenticated\<close> flag stays set.
\<close>

theorem mac_mismatch_keeps_session:
  assumes "authenticated sess" and "ssm_wrap cc sess cmd hdr data = Some apdu"
    and "tx crd apdu = ((SCARD_S_SUCCESS, (C @ RMACt) @ [0x91, sw2]), crd')"
    and "length RMACt = 8"
    and "ssm_response_mac cc sess (0x9100 OR ucast sw2) C = Some m" and "m \<noteq> RMACt"
  shows "\<not> ret (ssm_cmd_full tx cc crd sess cmd hdr data cap)
         \<and> sess_out (ssm_cmd_full tx cc crd sess cmd hdr data cap) = sess
         \<and> authenticated (sess_out (ssm_cmd_full tx cc crd sess cmd hdr data cap))"
proof -
  have u: "ssm_unwrap cc sess (0x9100 OR ucast sw2) (C @ RMACt) cap = (False, sess, [])"
    using assms(5,6)
    by (simp add: ssm_unwrap_split [OF assms(4) sw_class_91])
  show ?thesis
    using assms(1)
    by (simp add: ssm_cmd_full_received [where tx = tx and crd = crd and body = "C @ RMACt" and ?s1.0 = "0x91" and ?s2.0 = sw2, OF assms(1,2,3)] u)
qed

theorem ssm_cmd_full_frame_witness:
  "sess_out (ssm_cmd_full scripted toy_cc ([], []) demo_session 0xF6 [0x02] [] 16)
     = demo_session\<lparr>cmd_ctr := cmd_ctr (sess_out (ssm_cmd_full scripted toy_cc ([], []) demo_session 0xF6 [0x02] [] 16))\<rparr>"
  using ssm_cmd_full_frame [of scripted toy_cc "([], [])" demo_session "0xF6" "[0x02]" "[]" 16]
  by simp

theorem mac_mismatch_keeps_session_witness:
  "authenticated demo_session
   \<and> ssm_wrap toy_cc demo_session 0xF6 [0x02] []
       = Some [0x90, 0xF6, 0x00, 0x00, 0x09, 0x02, 0x5A, 0x55, 0x7D, 0x7A, 0x72, 0x6C, 0x66, 0xA0, 0x00]
   \<and> ssm_response_mac toy_cc demo_session (0x9100 OR ucast (0x00 :: byte)) []
       = Some [0x5B, 0x55, 0x7D, 0xF8, 0x72, 0x6C, 0x66, 0xA0]
   \<and> \<not> ret (ssm_cmd_full scripted toy_cc
            ([[0x00, 0x00, 0x00, 0x00, 0x00, 0x00, 0x00, 0x00, 0x91, 0x00]], []) demo_session 0xF6 [0x02] [] 16)
   \<and> sess_out (ssm_cmd_full scripted toy_cc
            ([[0x00, 0x00, 0x00, 0x00, 0x00, 0x00, 0x00, 0x00, 0x91, 0x00]], []) demo_session 0xF6 [0x02] [] 16)
       = demo_session"
proof -
  have h1: "authenticated demo_session" by code_simp
  have h2: "ssm_wrap toy_cc demo_session 0xF6 [0x02] []
       = Some [0x90, 0xF6, 0x00, 0x00, 0x09, 0x02, 0x5A, 0x55, 0x7D, 0x7A, 0x72, 0x6C, 0x66, 0xA0, 0x00]"
    by code_simp
  have h3: "scripted ([[0x00, 0x00, 0x00, 0x00, 0x00, 0x00, 0x00, 0x00, 0x91, 0x00]], [])
              [0x90, 0xF6, 0x00, 0x00, 0x09, 0x02, 0x5A, 0x55, 0x7D, 0x7A, 0x72, 0x6C, 0x66, 0xA0, 0x00]
            = ((SCARD_S_SUCCESS, ([] @ [0x00, 0x00, 0x00, 0x00, 0x00, 0x00, 0x00, 0x00]) @ [0x91, 0x00]),
               ([], [[0x90, 0xF6, 0x00, 0x00, 0x09, 0x02, 0x5A, 0x55, 0x7D, 0x7A, 0x72, 0x6C, 0x66, 0xA0, 0x00]]))"
    by (simp add: scripted_def)
  have h4: "length [0x00, 0x00, 0x00, 0x00, 0x00, 0x00, 0x00, 0x00 :: byte] = 8" by simp
  have h5: "ssm_response_mac toy_cc demo_session (0x9100 OR ucast (0x00 :: byte)) []
       = Some [0x5B, 0x55, 0x7D, 0xF8, 0x72, 0x6C, 0x66, 0xA0]"
    by code_simp
  have h6: "[0x5B, 0x55, 0x7D, 0xF8, 0x72, 0x6C, 0x66, 0xA0] \<noteq> [0x00, 0x00, 0x00, 0x00, 0x00, 0x00, 0x00, 0x00 :: byte]"
    by simp
  from mac_mismatch_keeps_session [where tx = scripted and cap = 16, OF h1 h2 h3 h4 h5 h6] h1 h2 h5
  show ?thesis by simp
qed

text \<open>
  The claim as the specification states it fails. In this exchange the MAC expected
  is \<open>5B 55 7D F8 72 6C 66 A0\<close> and the card sends eight zero bytes: the call
  fails, the session is still marked authenticated, and the next wrapped command on
  the same session is sent and succeeds.
\<close>

theorem mac_mismatch_counterexample:
  "ssm_response_mac toy_cc demo_session 0x9100 [] = Some [0x5B, 0x55, 0x7D, 0xF8, 0x72, 0x6C, 0x66, 0xA0]
   \<and> \<not> ret demo_bad_mac_run
   \<and> authenticated (sess_out demo_bad_mac_run)
   \<and> ret (ssm_cmd_full scripted toy_cc (card_out demo_bad_mac_run) (sess_out demo_bad_mac_run) 0xF6 [0x02] [] 16)"
  by code_simp

section \<open>The command counter\<close>

lemma authenticate_success:
  assumes "authenticate_ev2_first tx cc crd key keyno rndA s0 = ((True, sess), crd')"
  shows "cmd_ctr sess = 0 \<and> authenticated sess \<and> key_no sess = keyno"
  using assms
  unfolding authenticate_ev2_first_def Let_def case_prod_unfold
  by (simp split: if_splits) auto

lemma demo_ev2:
  "authenticate_ev2_first scripted toy_cc demo_ev2_script demo_key 0 demo_rndA zero_session
   = ((True, \<lparr>kenc = [0xE5, 0x3A, 0x00, 0x21, 0xC0, 0x60, 0x80, 0xB1, 0x31, 0x07, 0x01, 0x07, 0x2D, 0x5C, 0x0D, 0xC9],
              kmac = [0x1A, 0xC5, 0x00, 0x21, 0xC0, 0x60, 0x80, 0xB1, 0x31, 0x07, 0x01, 0x07, 0x2D, 0x5C, 0x0D, 0xC9],
              ti = [0x11, 0x22, 0x33, 0x44], cmd_ctr = 0, key_no = 0, authenticated = True\<rparr>),
      ([], [[0x90, 0x71, 0x00, 0x00, 0x02, 0x00, 0x00, 0x00],
            [0x90, 0xAF, 0x00, 0x00, 0x20,
             0xA0, 0xB0, 0x80, 0x90, 0xE0, 0xF0, 0xC0, 0xD0, 0x20, 0x30, 0x00, 0x10, 0x60, 0x70, 0x40, 0x50,
             0xFE, 0xAB, 0x9C, 0xED, 0xE9, 0xEB, 0x89, 0x76, 0xAB, 0xDC, 0xCD, 0x32, 0x67, 0x10, 0x01, 0x35,
             0x00]]))"
  by code_simp

lemma sw_hi_lo:
  fixes x y :: byte
  shows "(push_bit 8 (ucast x) OR ucast y :: 16 word) AND 0xFF00 = push_bit 8 (ucast x)"
    and "(ucast ((push_bit 8 (ucast x) OR ucast y :: 16 word) AND 0xFF) :: byte) = y"
proof -
  have m: "(0xFF00 :: 16 word) = push_bit 8 (mask 8)" by (simp add: mask_eq_exp_minus_1)
  show "(push_bit 8 (ucast x) OR ucast y :: 16 word) AND 0xFF00 = push_bit 8 (ucast x)"
    unfolding m by (rule bit_word_eqI) (auto simp: bit_simps dest: bit_imp_le_length)
  show "(ucast ((push_bit 8 (ucast x) OR ucast y :: 16 word) AND 0xFF) :: byte) = y"
    unfolding and_ff by (rule bit_word_eqI) (auto simp: bit_simps dest: bit_imp_le_length)
qed

lemma sw_hi_inj:
  fixes x x' :: byte
  assumes "(push_bit 8 (ucast x) :: 16 word) = push_bit 8 (ucast x')"
  shows "x = x'"
proof -
  have "(ucast (drop_bit 8 (push_bit 8 (ucast x) :: 16 word)) :: byte) = ucast (drop_bit 8 (push_bit 8 (ucast x') :: 16 word))"
    using assms by simp
  moreover have "(ucast (drop_bit 8 (push_bit 8 (ucast z) :: 16 word)) :: byte) = z" for z :: byte
    by (rule bit_word_eqI) (auto simp: bit_simps dest: bit_imp_le_length)
  ultimately show ?thesis by simp
qed

lemma sw_class_other:
  fixes s1 s2 :: byte
  assumes "s1 \<noteq> 0x91"
  shows "(push_bit 8 (ucast s1) OR ucast s2 :: 16 word) AND 0xFF00 \<noteq> 0x9100"
proof
  assume "(push_bit 8 (ucast s1) OR ucast s2 :: 16 word) AND 0xFF00 = 0x9100"
  then have "(push_bit 8 (ucast s1) :: 16 word) = push_bit 8 (ucast (0x91 :: byte))"
    by (simp add: sw_hi_lo(1))
  then show False using assms sw_hi_inj by blast
qed

lemma sw_91_push: "(push_bit 8 (ucast (0x91 :: byte)) OR ucast (s2 :: byte) :: 16 word) = 0x9100 OR ucast s2"
  by simp

lemma ssm_unwrap_wrong_class:
  "sw AND 0xFF00 \<noteq> 0x9100 \<Longrightarrow> ssm_unwrap cc sess sw body cap = (False, sess, [])"
  by (simp add: ssm_unwrap_def)

lemma ssm_unwrap_short:
  "length body < 8 \<Longrightarrow> ssm_unwrap cc sess sw body cap = (False, sess, [])"
  by (simp add: ssm_unwrap_def Let_def)

lemma ssm_unwrap_ret:
  fixes s1 s2 :: byte
  shows "fst (ssm_unwrap cc sess (push_bit 8 (ucast s1) OR ucast s2) body cap)
     = (s1 = 0x91 \<and> 8 \<le> length body \<and> fst (ssm_response_iv cc sess)
        \<and> ssm_response_mac cc sess (0x9100 OR ucast s2) (take (length body - 8) body)
            = Some (drop (length body - 8) body)
        \<and> (length body = 8
            \<or> (fst (aes_cbc_crypt cc False (kenc sess) (snd (ssm_response_iv cc sess))
                      (take (length body - 8) body) (length body - 8))
               \<and> unpad_iso9797_m2
                    (snd (aes_cbc_crypt cc False (kenc sess) (snd (ssm_response_iv cc sess))
                           (take (length body - 8) body) (length body - 8)))
                    (length body - 8) \<le> cap)))"
proof (cases "s1 = 0x91")
  case False
  then show ?thesis
    by (simp add: ssm_unwrap_wrong_class [OF sw_class_other])
next
  case True
  show ?thesis
  proof (cases "8 \<le> length body")
    case False
    then show ?thesis by (simp add: ssm_unwrap_short)
  next
    case long: True
    define C where "C = take (length body - 8) body"
    define R where "R = drop (length body - 8) body"
    have b: "body = C @ R" by (simp add: C_def R_def)
    have l: "length R = 8" using long by (simp add: R_def)
    have lc: "length C = length body - 8" by (simp add: C_def)
    have ce: "(C \<noteq> []) = (length body \<noteq> 8)" using long lc by auto
    have sw: "(push_bit 8 (ucast s1) OR ucast s2 :: 16 word) = 0x9100 OR ucast s2"
      unfolding True by (rule sw_91_push)
    have u: "fst (ssm_unwrap cc sess (0x9100 OR ucast s2) (C @ R) cap)
       = (fst (ssm_response_iv cc sess)
          \<and> ssm_response_mac cc sess (0x9100 OR ucast s2) C = Some R
          \<and> (C = []
              \<or> (fst (aes_cbc_crypt cc False (kenc sess) (snd (ssm_response_iv cc sess)) C (length C))
                 \<and> unpad_iso9797_m2
                      (snd (aes_cbc_crypt cc False (kenc sess) (snd (ssm_response_iv cc sess)) C (length C)))
                      (length C) \<le> cap)))"
      unfolding ssm_unwrap_split [OF l sw_class_91]
      by (cases "ssm_response_mac cc sess (0x9100 OR ucast s2) C") auto
    have "fst (ssm_unwrap cc sess (push_bit 8 (ucast s1) OR ucast s2) body cap)
          = fst (ssm_unwrap cc sess (0x9100 OR ucast s2) (C @ R) cap)"
      unfolding sw b ..
    also note u
    finally show ?thesis
      using True long ce unfolding lc C_def [symmetric] R_def [symmetric] by auto
  qed
qed

lemma ssm_cmd_full_ret_received:
  assumes "ret (ssm_cmd_full tx cc crd sess cmd hdr data cap)"
  shows "authenticated sess \<and> ssm_wrap cc sess cmd hdr data \<noteq> None
         \<and> fst (fst (tx crd (the (ssm_wrap cc sess cmd hdr data)))) = SCARD_S_SUCCESS
         \<and> 2 \<le> length (snd (fst (tx crd (the (ssm_wrap cc sess cmd hdr data)))))"
proof -
  have a: "authenticated sess"
    using assms by (auto simp: ssm_cmd_full_def split: if_splits)
  obtain apdu where w: "ssm_wrap cc sess cmd hdr data = Some apdu"
    using assms a by (auto simp: ssm_cmd_full_def split: option.splits)
  have "fst (fst (transmit tx crd apdu 0)) = SCARD_S_SUCCESS"
    using assms a w by (auto simp: ssm_cmd_full_def Let_def case_prod_unfold split: if_splits)
  then have "fst (fst (tx crd apdu)) = SCARD_S_SUCCESS \<and> 2 \<le> length (snd (fst (tx crd apdu)))"
    by (auto simp: transmit_def Let_def case_prod_unfold SCARD_S_SUCCESS_def SCARD_E_PROTO_MISMATCH_def
        split: if_splits)
  then show ?thesis using a w by simp
qed

text \<open>
  Claim C2, as the program has it. A session produced by a successful EV2-First
  handshake has \<open>cmd_ctr = 0\<close>. A call of \<open>ssm_cmd_full\<close> advances \<open>cmd_ctr\<close> by
  exactly 1 (modulo \<open>2 ^ 16\<close>) when it returns 1 and leaves it unchanged when it
  returns 0. It returns 1 only if the session is authenticated, the command could
  be wrapped, and the transport delivered an answer with a status word. For an
  answer \<open>body || SW1 || SW2\<close> so delivered it returns 1 exactly when \<open>SW1\<close> is \<open>0x91\<close>
  (with any \<open>SW2\<close>), the body has at least 8 bytes, the response IV was computed, the
  truncated CMAC over \<open>SW2 || CmdCtr+1 || TI || C\<close> is the last 8 bytes of the body
  (\<open>C\<close> the bytes before them), and \<open>C\<close> is empty or decrypts and its unpadded length
  is at most the capacity of the caller's output buffer. So with a wrong status
  class, a body shorter than 8 bytes, a MAC that does not verify, a body that does
  not decrypt or a plaintext longer than the output buffer the call returns 0 and
  the counter is unchanged.
\<close>

theorem cmd_ctr_advance:
  "(authenticate_ev2_first tx0 cc0 crd0 key keyno rndA s0 = ((True, sess0), crd1) \<longrightarrow> cmd_ctr sess0 = 0)
   \<and> cmd_ctr (sess_out (ssm_cmd_full tx1 cc1 crd2 sess1 cmd1 hdr1 data1 cap1))
       = (if ret (ssm_cmd_full tx1 cc1 crd2 sess1 cmd1 hdr1 data1 cap1) then cmd_ctr sess1 + 1 else cmd_ctr sess1)
   \<and> (ret (ssm_cmd_full tx1 cc1 crd2 sess1 cmd1 hdr1 data1 cap1)
      \<longrightarrow> authenticated sess1 \<and> ssm_wrap cc1 sess1 cmd1 hdr1 data1 \<noteq> None
          \<and> fst (fst (tx1 crd2 (the (ssm_wrap cc1 sess1 cmd1 hdr1 data1)))) = SCARD_S_SUCCESS
          \<and> 2 \<le> length (snd (fst (tx1 crd2 (the (ssm_wrap cc1 sess1 cmd1 hdr1 data1))))))
   \<and> (authenticated sess \<and> ssm_wrap cc sess cmd hdr data = Some apdu
        \<and> tx crd apdu = ((SCARD_S_SUCCESS, body @ [sw1, sw2]), crd')
      \<longrightarrow> (ret (ssm_cmd_full tx cc crd sess cmd hdr data cap)
             = (sw1 = 0x91 \<and> 8 \<le> length body \<and> fst (ssm_response_iv cc sess)
                \<and> ssm_response_mac cc sess (0x9100 OR ucast sw2) (take (length body - 8) body)
                    = Some (drop (length body - 8) body)
                \<and> (length body = 8
                    \<or> (fst (aes_cbc_crypt cc False (kenc sess) (snd (ssm_response_iv cc sess))
                              (take (length body - 8) body) (length body - 8))
                       \<and> unpad_iso9797_m2
                            (snd (aes_cbc_crypt cc False (kenc sess) (snd (ssm_response_iv cc sess))
                                   (take (length body - 8) body) (length body - 8)))
                            (length body - 8) \<le> cap))))
          \<and> sw_out (ssm_cmd_full tx cc crd sess cmd hdr data cap) = Some (push_bit 8 (ucast sw1) OR ucast sw2)
          \<and> (sw1 \<noteq> 0x91 \<or> length body < 8
               \<or> ssm_response_mac cc sess (0x9100 OR ucast sw2) (take (length body - 8) body)
                   \<noteq> Some (drop (length body - 8) body)
               \<or> (length body \<noteq> 8
                   \<and> \<not> fst (aes_cbc_crypt cc False (kenc sess) (snd (ssm_response_iv cc sess))
                              (take (length body - 8) body) (length body - 8)))
               \<or> (length body \<noteq> 8
                   \<and> cap < unpad_iso9797_m2
                            (snd (aes_cbc_crypt cc False (kenc sess) (snd (ssm_response_iv cc sess))
                                   (take (length body - 8) body) (length body - 8)))
                            (length body - 8))
              \<longrightarrow> \<not> ret (ssm_cmd_full tx cc crd sess cmd hdr data cap)
                  \<and> cmd_ctr (sess_out (ssm_cmd_full tx cc crd sess cmd hdr data cap)) = cmd_ctr sess))"
proof (intro conjI impI)
  assume "authenticate_ev2_first tx0 cc0 crd0 key keyno rndA s0 = ((True, sess0), crd1)"
  then show "cmd_ctr sess0 = 0" by (simp add: authenticate_success)
next
  show "cmd_ctr (sess_out (ssm_cmd_full tx1 cc1 crd2 sess1 cmd1 hdr1 data1 cap1))
       = (if ret (ssm_cmd_full tx1 cc1 crd2 sess1 cmd1 hdr1 data1 cap1) then cmd_ctr sess1 + 1 else cmd_ctr sess1)"
    using ssm_cmd_full_cases [of tx1 cc1 crd2 sess1 cmd1 hdr1 data1 cap1] by auto
next
  assume r: "ret (ssm_cmd_full tx1 cc1 crd2 sess1 cmd1 hdr1 data1 cap1)"
  note rec = ssm_cmd_full_ret_received [where tx = tx1 and crd = crd2, OF r]
  show "authenticated sess1" using rec by simp
  show "ssm_wrap cc1 sess1 cmd1 hdr1 data1 \<noteq> None" using rec by simp
  show "fst (fst (tx1 crd2 (the (ssm_wrap cc1 sess1 cmd1 hdr1 data1)))) = SCARD_S_SUCCESS" using rec by simp
  show "2 \<le> length (snd (fst (tx1 crd2 (the (ssm_wrap cc1 sess1 cmd1 hdr1 data1)))))" using rec by simp
next
  assume h: "authenticated sess \<and> ssm_wrap cc sess cmd hdr data = Some apdu
        \<and> tx crd apdu = ((SCARD_S_SUCCESS, body @ [sw1, sw2]), crd')"
  then have a: "authenticated sess" and w: "ssm_wrap cc sess cmd hdr data = Some apdu"
    and t: "tx crd apdu = ((SCARD_S_SUCCESS, body @ [sw1, sw2]), crd')"
    by simp_all
  note full = ssm_cmd_full_received [where tx = tx and crd = crd and body = body and ?s1.0 = sw1
      and ?s2.0 = sw2 and cap = cap, OF a w t]
  have r: "ret (ssm_cmd_full tx cc crd sess cmd hdr data cap)
           = fst (ssm_unwrap cc sess (push_bit 8 (ucast sw1) OR ucast sw2) body cap)"
    by (simp add: full)
  show e: "ret (ssm_cmd_full tx cc crd sess cmd hdr data cap)
             = (sw1 = 0x91 \<and> 8 \<le> length body \<and> fst (ssm_response_iv cc sess)
                \<and> ssm_response_mac cc sess (0x9100 OR ucast sw2) (take (length body - 8) body)
                    = Some (drop (length body - 8) body)
                \<and> (length body = 8
                    \<or> (fst (aes_cbc_crypt cc False (kenc sess) (snd (ssm_response_iv cc sess))
                              (take (length body - 8) body) (length body - 8))
                       \<and> unpad_iso9797_m2
                            (snd (aes_cbc_crypt cc False (kenc sess) (snd (ssm_response_iv cc sess))
                                   (take (length body - 8) body) (length body - 8)))
                            (length body - 8) \<le> cap)))"
    unfolding r by (rule ssm_unwrap_ret)
  show "sw_out (ssm_cmd_full tx cc crd sess cmd hdr data cap) = Some (push_bit 8 (ucast sw1) OR ucast sw2)"
    by (simp add: full)
  assume f: "sw1 \<noteq> 0x91 \<or> length body < 8
               \<or> ssm_response_mac cc sess (0x9100 OR ucast sw2) (take (length body - 8) body)
                   \<noteq> Some (drop (length body - 8) body)
               \<or> (length body \<noteq> 8
                   \<and> \<not> fst (aes_cbc_crypt cc False (kenc sess) (snd (ssm_response_iv cc sess))
                              (take (length body - 8) body) (length body - 8)))
               \<or> (length body \<noteq> 8
                   \<and> cap < unpad_iso9797_m2
                            (snd (aes_cbc_crypt cc False (kenc sess) (snd (ssm_response_iv cc sess))
                                   (take (length body - 8) body) (length body - 8)))
                            (length body - 8))"
  show n: "\<not> ret (ssm_cmd_full tx cc crd sess cmd hdr data cap)"
    unfolding e using f by auto
  show "cmd_ctr (sess_out (ssm_cmd_full tx cc crd sess cmd hdr data cap)) = cmd_ctr sess"
    using ssm_cmd_full_cases [of tx cc crd sess cmd hdr data cap] n by auto
qed

theorem cmd_ctr_advance_witness:
  "fst (fst (authenticate_ev2_first scripted toy_cc demo_ev2_script demo_key 0 demo_rndA zero_session))
   \<and> cmd_ctr (snd (fst (authenticate_ev2_first scripted toy_cc demo_ev2_script demo_key 0 demo_rndA zero_session))) = 0
   \<and> authenticated demo_session
   \<and> ssm_response_mac toy_cc demo_session (0x9100 OR ucast (0x9D :: byte))
        [0x70, 0xA5, 0x11, 0xA2, 0x33, 0x44, 0x01, 0x00, 0x00, 0x00, 0x00, 0x00, 0x00, 0x00, 0x00, 0x00]
       = Some [0x49, 0x41, 0x6B, 0x90, 0x79, 0x43, 0x79, 0x80]
   \<and> ret (ssm_cmd_full scripted toy_cc
           ([[0x70, 0xA5, 0x11, 0xA2, 0x33, 0x44, 0x01, 0x00, 0x00, 0x00, 0x00, 0x00, 0x00, 0x00, 0x00, 0x00,
              0x49, 0x41, 0x6B, 0x90, 0x79, 0x43, 0x79, 0x80, 0x91, 0x9D]], [])
           demo_session 0xF6 [0x02] [] 16)
   \<and> cmd_ctr (sess_out (ssm_cmd_full scripted toy_cc
           ([[0x70, 0xA5, 0x11, 0xA2, 0x33, 0x44, 0x01, 0x00, 0x00, 0x00, 0x00, 0x00, 0x00, 0x00, 0x00, 0x00,
              0x49, 0x41, 0x6B, 0x90, 0x79, 0x43, 0x79, 0x80, 0x91, 0x9D]], [])
           demo_session 0xF6 [0x02] [] 16)) = cmd_ctr demo_session + 1
   \<and> sw_out (ssm_cmd_full scripted toy_cc
           ([[0x70, 0xA5, 0x11, 0xA2, 0x33, 0x44, 0x01, 0x00, 0x00, 0x00, 0x00, 0x00, 0x00, 0x00, 0x00, 0x00,
              0x49, 0x41, 0x6B, 0x90, 0x79, 0x43, 0x79, 0x80, 0x91, 0x9D]], [])
           demo_session 0xF6 [0x02] [] 16) = Some 0x919D
   \<and> \<not> ret (ssm_cmd_full scripted toy_cc
           ([[0x70, 0xA5, 0x11, 0xA2, 0x33, 0x44, 0x01, 0x00, 0x00, 0x00, 0x00, 0x00, 0x00, 0x00, 0x00, 0x00,
              0x49, 0x41, 0x6B, 0x90, 0x79, 0x43, 0x79, 0x80, 0x90, 0x00]], [])
           demo_session 0xF6 [0x02] [] 16)
   \<and> cmd_ctr (sess_out (ssm_cmd_full scripted toy_cc
           ([[0x70, 0xA5, 0x11, 0xA2, 0x33, 0x44, 0x01, 0x00, 0x00, 0x00, 0x00, 0x00, 0x00, 0x00, 0x00, 0x00,
              0x49, 0x41, 0x6B, 0x90, 0x79, 0x43, 0x79, 0x80, 0x90, 0x00]], [])
           demo_session 0xF6 [0x02] [] 16)) = cmd_ctr demo_session"
proof -
  define C :: bytes where
    "C = [0x70, 0xA5, 0x11, 0xA2, 0x33, 0x44, 0x01, 0x00, 0x00, 0x00, 0x00, 0x00, 0x00, 0x00, 0x00, 0x00]"
  define M :: bytes where "M = [0x49, 0x41, 0x6B, 0x90, 0x79, 0x43, 0x79, 0x80]"
  define A :: bytes where
    "A = [0x90, 0xF6, 0x00, 0x00, 0x09, 0x02, 0x5A, 0x55, 0x7D, 0x7A, 0x72, 0x6C, 0x66, 0xA0, 0x00]"
  define r where "r = ssm_cmd_full scripted toy_cc ([(C @ M) @ [0x91, 0x9D]], []) demo_session 0xF6 [0x02] [] 16"
  define q where "q = ssm_cmd_full scripted toy_cc ([(C @ M) @ [0x90, 0x00]], []) demo_session 0xF6 [0x02] [] 16"
  have h1: "authenticated demo_session" by code_simp
  have h2: "ssm_wrap toy_cc demo_session 0xF6 [0x02] [] = Some A" unfolding A_def by code_simp
  have h3: "scripted ([(C @ M) @ [0x91, 0x9D]], []) A = ((SCARD_S_SUCCESS, (C @ M) @ [0x91, 0x9D]), ([], [A]))"
    by (simp add: scripted_def)
  have g3: "scripted ([(C @ M) @ [0x90, 0x00]], []) A = ((SCARD_S_SUCCESS, (C @ M) @ [0x90, 0x00]), ([], [A]))"
    by (simp add: scripted_def)
  have l: "length (C @ M) = 24" "length (C @ M) - 8 = 16" by (simp_all add: C_def M_def)
  have lc: "length C = 16" by (simp add: C_def)
  have h5: "fst (ssm_response_iv toy_cc demo_session)" by code_simp
  have h6: "ssm_response_mac toy_cc demo_session (0x9100 OR ucast (0x9D :: byte)) C = Some M"
    unfolding C_def M_def by code_simp
  have h7: "fst (aes_cbc_crypt toy_cc False (kenc demo_session) (snd (ssm_response_iv toy_cc demo_session)) C 16)
            \<and> unpad_iso9797_m2 (snd (aes_cbc_crypt toy_cc False (kenc demo_session) (snd (ssm_response_iv toy_cc demo_session)) C 16))
                 16 \<le> 16"
    unfolding C_def by code_simp
  note inst = cmd_ctr_advance [where ?tx0.0 = scripted and ?cc0.0 = toy_cc and ?crd0.0 = demo_ev2_script
      and key = demo_key and keyno = 0 and rndA = demo_rndA and ?s0.0 = zero_session
      and tx = scripted and cc = toy_cc and sess = demo_session and cmd = "0xF6" and hdr = "[0x02]"
      and data = "[]" and apdu = A and crd = "([(C @ M) @ [0x91, 0x9D]], [])" and body = "C @ M"
      and ?sw1.0 = "0x91" and ?sw2.0 = "0x9D" and crd' = "([], [A])" and cap = 16
      and ?tx1.0 = scripted and ?cc1.0 = toy_cc and ?crd2.0 = "([(C @ M) @ [0x91, 0x9D]], [])"
      and ?sess1.0 = demo_session and ?cmd1.0 = "0xF6" and ?hdr1.0 = "[0x02]" and ?data1.0 = "[]" and ?cap1.0 = 16]
  note inst2 = cmd_ctr_advance [where tx = scripted and cc = toy_cc and sess = demo_session and cmd = "0xF6"
      and hdr = "[0x02]" and data = "[]" and apdu = A and crd = "([(C @ M) @ [0x90, 0x00]], [])" and body = "C @ M"
      and ?sw1.0 = "0x90" and ?sw2.0 = "0x00" and crd' = "([], [A])" and cap = 16]
  have e: "fst (fst (authenticate_ev2_first scripted toy_cc demo_ev2_script demo_key 0 demo_rndA zero_session))"
    by (simp add: demo_ev2)
  have x: "authenticate_ev2_first scripted toy_cc demo_ev2_script demo_key 0 demo_rndA zero_session
           = ((True, snd (fst (authenticate_ev2_first scripted toy_cc demo_ev2_script demo_key 0 demo_rndA zero_session))),
              snd (authenticate_ev2_first scripted toy_cc demo_ev2_script demo_key 0 demo_rndA zero_session))"
    using e by (simp add: prod_eq_iff)
  have c0: "cmd_ctr (snd (fst (authenticate_ev2_first scripted toy_cc demo_ev2_script demo_key 0 demo_rndA zero_session))) = 0"
    by (rule mp [OF inst [THEN conjunct1] x])
  note rec = mp [OF inst [THEN conjunct2, THEN conjunct2, THEN conjunct2] conjI [OF h1 conjI [OF h2 h3]]]
  have r1: "ret r"
    unfolding r_def rec [THEN conjunct1] l using h5 h6 h7 by (simp add: lc)
  have r3: "sw_out r = Some (0x9100 OR ucast (0x9D :: byte))"
    unfolding r_def rec [THEN conjunct2, THEN conjunct1] by simp
  have r2: "cmd_ctr (sess_out r) = cmd_ctr demo_session + 1"
    using inst [THEN conjunct2, THEN conjunct1] r1 unfolding r_def by simp
  note rec2 = mp [OF inst2 [THEN conjunct2, THEN conjunct2, THEN conjunct2] conjI [OF h1 conjI [OF h2 g3]]]
  have n: "(0x90 :: byte) \<noteq> 0x91" by simp
  have q1: "\<not> ret q" and q2: "cmd_ctr (sess_out q) = cmd_ctr demo_session"
    using mp [OF rec2 [THEN conjunct2, THEN conjunct2] disjI1 [OF n]] unfolding q_def by simp_all
  show ?thesis
    using e c0 h1 h6 r1 r2 r3 q1 q2 unfolding r_def q_def C_def M_def by simp
qed

text \<open>
  The claim as the specification states it fails: here the response MAC verifies,
  but the body decrypts to 17 bytes where the caller has room for 16; the call
  returns 0 and the counter stays where it was.
\<close>

theorem cmd_ctr_counterexample:
  "ssm_response_mac toy_cc demo_session 0x9100 demo_long_body = Some [0x50, 0x58, 0x72, 0xE8, 0x71, 0x69, 0x61, 0xA9]
   \<and> \<not> ret demo_long_body_run
   \<and> cmd_ctr (sess_out demo_long_body_run) = cmd_ctr demo_session
   \<and> sw_out demo_long_body_run = Some 0x9100"
  by code_simp

section \<open>The Le retry\<close>























section \<open>AES-CMAC against RFC 4493\<close>

subsection \<open>The byte-wise shift is the doubling of the 128-bit number\<close>

lemma left_shift_loop_index:
  "n \<le> length out \<Longrightarrow>
   left_shift_loop inp n carry out =
     map (\<lambda>i. push_bit 1 (inp ! i) OR (if Suc i = n then carry else if inp ! Suc i AND 0x80 \<noteq> 0 then 1 else 0)) [0..<n]
     @ drop n out"
proof (induction n arbitrary: carry out)
  case 0
  then show ?case by simp
next
  case (Suc n)
  let ?c = "if inp ! n AND 0x80 \<noteq> 0 then 1 else 0 :: byte"
  let ?out = "out[n := push_bit 1 (inp ! n) OR carry]"
  have len: "n \<le> length ?out" using Suc.prems by simp
  have "left_shift_loop inp (Suc n) carry out = left_shift_loop inp n ?c ?out"
    by (simp add: Let_def)
  also have "\<dots> = map (\<lambda>i. push_bit 1 (inp ! i) OR (if Suc i = n then ?c else if inp ! Suc i AND 0x80 \<noteq> 0 then 1 else 0)) [0..<n]
                   @ drop n ?out"
    by (rule Suc.IH [OF len])
  also have "drop n ?out = (push_bit 1 (inp ! n) OR carry) # drop (Suc n) out"
    using Suc.prems by (simp add: drop_update_cancel Cons_nth_drop_Suc [symmetric] del: drop_Suc)
  also have "map (\<lambda>i. push_bit 1 (inp ! i) OR (if Suc i = n then ?c else if inp ! Suc i AND 0x80 \<noteq> 0 then 1 else 0)) [0..<n]
             = map (\<lambda>i. push_bit 1 (inp ! i) OR (if inp ! Suc i AND 0x80 \<noteq> 0 then 1 else 0)) [0..<n]"
    by (rule map_cong) auto
  finally show ?case
    by (simp del: left_shift_loop.simps)
qed

lemma left_shift_1bit_shifted:
  "length inp = 16 \<Longrightarrow> left_shift_1bit inp = shifted inp"
  unfolding left_shift_1bit_def shifted_def
  by (subst left_shift_loop_index) simp_all


lemma be_nat_foldl:
  "foldl (\<lambda>a b. a * 256 + unat (b :: byte)) a xs = a * 256 ^ length xs + foldl (\<lambda>a b. a * 256 + unat b) 0 xs"
proof -
  define f where "f = (\<lambda>(a :: nat) (b :: byte). a * 256 + unat b)"
  have "foldl f a xs = a * 256 ^ length xs + foldl f 0 xs"
  proof (induction xs arbitrary: a)
    case Nil
    then show ?case by simp
  next
    case (Cons x xs)
    have "foldl f a (x # xs) = foldl f (a * 256 + unat x) xs" by (simp add: f_def)
    also have "\<dots> = (a * 256 + unat x) * 256 ^ length xs + foldl f 0 xs" by (rule Cons.IH)
    finally have l: "foldl f a (x # xs) = (a * 256 + unat x) * 256 ^ length xs + foldl f 0 xs" .
    have "foldl f 0 (x # xs) = foldl f (unat x) xs" by (simp add: f_def)
    also have "\<dots> = unat x * 256 ^ length xs + foldl f 0 xs" by (rule Cons.IH)
    finally have r: "foldl f 0 (x # xs) = unat x * 256 ^ length xs + foldl f 0 xs" .
    show ?case unfolding l r by (simp add: algebra_simps)
  qed
  then show ?thesis unfolding f_def .
qed

lemma be_nat_Cons: "be_nat (x # xs) = unat x * 256 ^ length xs + be_nat xs"
  unfolding be_nat_def using be_nat_foldl [of "unat x" xs] by simp

lemma be_nat_Nil: "be_nat [] = 0"
  by (simp add: be_nat_def)

lemma be_nat_bound: "be_nat xs < 256 ^ length xs"
proof (induction xs)
  case Nil
  then show ?case by (simp add: be_nat_Nil)
next
  case (Cons x xs)
  have "unat x < 256" using unsigned_less [of x] by simp
  then have le: "unat x * 256 ^ length xs \<le> 255 * 256 ^ length xs" by simp
  have "unat x * 256 ^ length xs + be_nat xs < 255 * 256 ^ length xs + 256 ^ length xs"
    by (rule add_le_less_mono [OF le Cons.IH])
  then show ?case by (simp add: be_nat_Cons)
qed

lemma shifted_Cons:
  "shifted (x # xs) = (push_bit 1 x OR (if xs = [] then 0 else if hd xs AND 0x80 \<noteq> 0 then 1 else 0)) # shifted xs"
proof -
  have "[0..<Suc (length xs)] = 0 # map Suc [0..<length xs]"
    by (simp add: upt_conv_Cons map_Suc_upt del: upt_Suc)
  then show ?thesis
    unfolding shifted_def
    by (cases xs) (simp_all add: comp_def hd_conv_nth del: upt_Suc)
qed

lemma shifted_Nil: "shifted [] = []"
  by (simp add: shifted_def)

lemma length_shifted: "length (shifted xs) = length xs"
  by (simp add: shifted_def)

lemma top_bit: "(x AND 0x80 \<noteq> 0) = (128 \<le> unat x)" for x :: byte
proof -
  have "(x AND 0x80 \<noteq> 0) = bit x 7"
    using and_exp_eq_0_iff_not_bit [of x 7] by simp
  also have "\<dots> = bit (unat x) 7" by (simp add: bit_unsigned_iff)
  also have "\<dots> = odd (unat x div 128)" by (simp add: bit_iff_odd)
  also have "\<dots> = (128 \<le> unat x)"
  proof -
    have "unat x < 256" using unsigned_less [of x] by simp
    then have "unat x div 128 = (if 128 \<le> unat x then 1 else 0)" by auto
    then show ?thesis by simp
  qed
  finally show ?thesis .
qed

lemma unat_shift_carry:
  fixes x :: byte
  shows "unat (push_bit 1 x OR (if c then 1 else 0)) = (2 * unat x) mod 256 + (if c then 1 else 0)"
proof -
  have p: "unat (push_bit 1 x) = (2 * unat x) mod 256"
    by (simp add: unat_word_ariths mult.commute)
  show ?thesis
  proof (cases c)
    case False
    then show ?thesis using p by simp
  next
    case True
    have ev: "even (push_bit 1 x)" by simp
    have "push_bit 1 x OR 1 = push_bit 1 x + 1"
      using ev by (simp add: or_one_eq)
    moreover have "unat (push_bit 1 x + 1) = unat (push_bit 1 x) + 1"
    proof -
      have "even ((2 * unat x) mod 256)" by (simp add: dvd_mod_iff)
      moreover have "(2 * unat x) mod 256 < 256" by simp
      ultimately have "(2 * unat x) mod 256 + 1 < 256"
        by (metis One_nat_def Suc_lessI add.right_neutral add_Suc_right even_numeral odd_Suc_minus_one numeral_eq_Suc
            even_Suc)
      then show ?thesis
        using p by (simp add: unat_word_ariths)
    qed
    ultimately show ?thesis using True p by simp
  qed
qed

lemma double_be:
  "be_nat (shifted xs) + 256 ^ length xs * (if xs = [] then 0 else unat (hd xs) div 128) = 2 * be_nat xs"
proof (induction xs)
  case Nil
  then show ?case by (simp add: shifted_Nil be_nat_Nil)
next
  case (Cons x xs)
  define h where "h = (if xs = [] then 0 else unat (hd xs) div 128)"
  define c where "c = (xs \<noteq> [] \<and> 128 \<le> unat (hd xs))"
  define y :: byte where "y = push_bit 1 x OR (if c then 1 else 0)"
  have hb: "(if xs = [] then 0 else if hd xs AND 0x80 \<noteq> 0 then 1 else 0 :: byte) = (if c then 1 else 0)"
    by (simp add: top_bit c_def)
  have hv: "(if c then 1 else 0) = h"
  proof -
    have "unat (hd xs) < 256" using unsigned_less [of "hd xs"] by simp
    then show ?thesis unfolding h_def c_def by auto
  qed
  have uy: "unat y = (2 * unat x) mod 256 + h"
    unfolding y_def hv [symmetric] by (rule unat_shift_carry)
  have sc: "shifted (x # xs) = y # shifted xs"
    unfolding shifted_Cons hb y_def by (rule refl)
  have xd: "(2 * unat x) mod 256 + 256 * (unat x div 128) = 2 * unat x"
  proof -
    have "2 * unat x mod 256 = 2 * (unat x mod 128)" by (simp add: mult_mod_right)
    then show ?thesis using div_mult_mod_eq [of "unat x" 128] by linarith
  qed
  have "be_nat (shifted (x # xs)) = ((2 * unat x) mod 256 + h) * 256 ^ length xs + be_nat (shifted xs)"
    unfolding sc be_nat_Cons length_shifted uy by (rule refl)
  then have "be_nat (shifted (x # xs)) + 256 ^ length (x # xs) * (unat x div 128)
             = ((2 * unat x) mod 256 + 256 * (unat x div 128)) * 256 ^ length xs
               + (be_nat (shifted xs) + 256 ^ length xs * h)"
    by (simp add: algebra_simps)
  also have "\<dots> = 2 * unat x * 256 ^ length xs + 2 * be_nat xs"
    using Cons.IH unfolding h_def [symmetric] xd by simp
  finally show ?case by (simp add: be_nat_Cons algebra_simps)
qed


lemma nat_be_Suc: "nat_be (Suc n) v = of_nat (v div 256 ^ n) # nat_be n v"
proof -
  have "[0..<Suc n] = 0 # map Suc [0..<n]"
    by (simp add: upt_conv_Cons map_Suc_upt del: upt_Suc)
  then show ?thesis
    unfolding nat_be_def by (simp add: comp_def del: upt_Suc)
qed

lemma nat_be_high: "nat_be n (a * 256 ^ n + b) = nat_be n b"
proof -
  have "(of_nat ((a * 256 ^ n + b) div 256 ^ (n - 1 - i)) :: byte) = of_nat (b div 256 ^ (n - 1 - i))"
    if "i < n" for i
  proof -
    define k where "k = n - 1 - i"
    define m where "m = n - Suc k"
    define t where "t = 256 * (a * 256 ^ m)"
    have nm: "n = Suc m + k" using that by (simp add: k_def m_def)
    have "(256 :: nat) ^ n = 256 ^ Suc m * 256 ^ k" by (simp only: nm power_add)
    then have e: "a * 256 ^ n = t * 256 ^ k" by (simp add: t_def)
    have "(a * 256 ^ n + b) div 256 ^ k = t + b div 256 ^ k"
      unfolding e by simp
    then have "(a * 256 ^ n + b) div 256 ^ k = 256 * (a * 256 ^ (n - Suc k)) + b div 256 ^ k"
      unfolding t_def m_def .
    then have "(of_nat ((a * 256 ^ n + b) div 256 ^ k) :: byte) = of_nat (256 * (a * 256 ^ (n - Suc k))) + of_nat (b div 256 ^ k)"
      by simp
    also have "(of_nat (256 * (a * 256 ^ (n - Suc k))) :: byte) = 0"
    proof -
      have z: "(of_nat 256 :: byte) = 0" by simp
      have "(of_nat (256 * (a * 256 ^ (n - Suc k))) :: byte) = of_nat 256 * of_nat (a * 256 ^ (n - Suc k))"
        by (simp only: of_nat_mult)
      then show ?thesis unfolding z by simp
    qed
    finally show ?thesis unfolding k_def by simp
  qed
  then show ?thesis
    unfolding nat_be_def by simp
qed

lemma nat_be_be_nat: "nat_be (length ys) (be_nat ys) = ys"
proof (induction ys)
  case Nil
  then show ?case by (simp add: nat_be_def)
next
  case (Cons y ys)
  have "(unat y * 256 ^ length ys + be_nat ys) div 256 ^ length ys = unat y"
    using be_nat_bound [of ys] by simp
  then show ?case
    by (simp add: nat_be_Suc be_nat_Cons nat_be_high Cons.IH)
qed

lemma left_shift_1bit_rfc:
  assumes "length b = 16"
  shows "left_shift_1bit b = rfc_shift1 b"
proof -
  have p: "(256 :: nat) ^ 16 = 2 ^ 128" by simp
  have d: "be_nat (shifted b) + 2 ^ 128 * (if b = [] then 0 else unat (hd b) div 128) = be_nat b * 2"
    using double_be [of b] assms by (simp add: p)
  have lt: "be_nat (shifted b) < 2 ^ 128"
    using be_nat_bound [of "shifted b"] assms by (simp add: length_shifted p)
  have "(be_nat b * 2) mod 2 ^ 128 = be_nat (shifted b)"
    unfolding d [symmetric] using lt by simp
  then have "rfc_shift1 b = nat_be (length (shifted b)) (be_nat (shifted b))"
    by (simp add: rfc_shift1_def length_shifted assms)
  then show ?thesis
    by (simp add: nat_be_be_nat left_shift_1bit_shifted [OF assms])
qed

lemma top_bit_be_nat:
  assumes "length b = 16"
  shows "(b ! 0 AND 0x80 \<noteq> 0) = (2 ^ 127 \<le> be_nat b)"
proof -
  obtain x xs where b: "b = x # xs" and l: "length xs = 15"
    using assms by (cases b) auto
  define P :: nat where "P = 256 ^ 15"
  have p: "(2 :: nat) ^ 127 = 128 * P" by (simp add: P_def)
  have bn: "be_nat b = unat x * P + be_nat xs" by (simp add: b be_nat_Cons l P_def)
  have lt: "be_nat xs < P" using be_nat_bound [of xs] by (simp add: l P_def)
  have b0: "b ! 0 = x" by (simp add: b)
  have eq: "(128 * P \<le> unat x * P + be_nat xs) = (128 \<le> unat x)"
  proof
    assume a: "128 * P \<le> unat x * P + be_nat xs"
    show "128 \<le> unat x"
    proof (rule ccontr)
      assume "\<not> 128 \<le> unat x"
      then have "unat x + 1 \<le> 128" by simp
      then have "(unat x + 1) * P \<le> 128 * P" by (rule mult_le_mono1)
      then have "unat x * P + P \<le> 128 * P" by (simp add: algebra_simps)
      with lt a show False by simp
    qed
  next
    assume "128 \<le> unat x"
    then have "128 * P \<le> unat x * P" by (rule mult_le_mono1)
    then show "128 * P \<le> unat x * P + be_nat xs" by (rule trans_le_add1)
  qed
  show ?thesis
    unfolding top_bit b0 p bn eq by (rule refl)
qed

lemma update_last:
  "length s = Suc n \<Longrightarrow> s[n := s ! n XOR v] = butlast s @ [last s XOR v]"
  by (cases s rule: rev_cases) (auto simp: nth_append list_update_append)

lemma length_left_shift_1bit: "length (left_shift_1bit b) = 16"
  unfolding left_shift_1bit_def
  by (subst left_shift_loop_index) simp_all

lemma subkey_rfc:
  assumes "length b = 16"
  shows "(if b ! 0 AND 0x80 \<noteq> 0 then (left_shift_1bit b)[15 := left_shift_1bit b ! 15 XOR 0x87] else left_shift_1bit b)
         = rfc_subkey b"
proof -
  have "length (left_shift_1bit b) = Suc 15" by (simp add: length_left_shift_1bit)
  from update_last [OF this, of "0x87"]
  show ?thesis
    unfolding rfc_subkey_def Let_def top_bit_be_nat [OF assms] left_shift_1bit_rfc [OF assms, symmetric]
    by simp
qed

lemma length_rfc_subkey: "length b = 16 \<Longrightarrow> length (rfc_subkey b) = 16"
  using subkey_rfc [of b, symmetric] by (simp add: length_left_shift_1bit)


subsection \<open>The CBC-MAC loop\<close>

lemma aes_ecb_encrypt_good:
  assumes "\<forall>b. length b = 16 \<longrightarrow> cc kCCEncrypt kCCOptionECBMode K None b = (kCCSuccess, E K b) \<and> length (E K b) = 16"
    and "length y = 16" and "length prev = 16"
  shows "aes_ecb_encrypt cc K y prev = (True, E K y)" and "length (E K y) = 16"
  using assms by (simp_all add: aes_ecb_encrypt_def store_def)

lemma generate_cmac_subkeys_good:
  assumes "\<forall>b. length b = 16 \<longrightarrow> cc kCCEncrypt kCCOptionECBMode K None b = (kCCSuccess, E K b) \<and> length (E K b) = 16"
  shows "generate_cmac_subkeys cc K
         = (rfc_subkey (E K (replicate 16 0)), rfc_subkey (rfc_subkey (E K (replicate 16 0))))"
proof -
  define L where "L = E K (replicate 16 0)"
  have e: "aes_ecb_encrypt cc K (replicate 16 0) (replicate 16 0) = (True, L)" and l: "length L = 16"
    unfolding L_def
    using aes_ecb_encrypt_good [where cc = cc and E = E and K = K, OF assms, of "replicate 16 0" "replicate 16 0"]
    by simp_all
  have k1: "(if L ! 0 AND 0x80 \<noteq> 0 then (left_shift_1bit L)[15 := left_shift_1bit L ! 15 XOR 0x87] else left_shift_1bit L)
            = rfc_subkey L"
    by (rule subkey_rfc [OF l])
  have l1: "length (rfc_subkey L) = 16" by (rule length_rfc_subkey [OF l])
  have k2: "(if rfc_subkey L ! 0 AND 0x80 \<noteq> 0
             then (left_shift_1bit (rfc_subkey L))[15 := left_shift_1bit (rfc_subkey L) ! 15 XOR 0x87]
             else left_shift_1bit (rfc_subkey L))
            = rfc_subkey (rfc_subkey L)"
    by (rule subkey_rfc [OF l1])
  show ?thesis
    unfolding generate_cmac_subkeys_def Let_def e snd_conv k1 k2 L_def [symmetric] by (rule refl)
qed

lemma xor_block_bytes:
  assumes "length a = 16" and "16 \<le> length b"
  shows "xor_block a b 16 = xor_bytes a (take 16 b)"
  using assms
  by (auto simp: xor_block_def xor_bytes_def list_eq_iff_nth_eq)

lemma length_xor_block: "length (xor_block a b n) = n"
  by (simp add: xor_block_def)

lemma blocks16_index:
  "blocks16 M = map (\<lambda>j. take 16 (drop (16 * j) M)) [0..<(length M + 15) div 16]"
proof (induction M rule: blocks16.induct)
  case (1 m)
  show ?case
  proof (cases "m = []")
    case True
    then show ?thesis by (simp add: blocks16.simps)
  next
    case False
    define n where "n = (length (drop 16 m) + 15) div 16"
    have cnt: "(length m + 15) div 16 = Suc n"
    proof (cases "16 \<le> length m")
      case True
      then have "length m + 15 = (length m - 16 + 15) + 16" by simp
      then have "(length m + 15) div 16 = (length m - 16 + 15) div 16 + 1"
        by (metis div_add_self2 zero_neq_numeral)
      then show ?thesis by (simp add: n_def)
    next
      case False
      with \<open>m \<noteq> []\<close> have "0 < length m" "length m < 16" by simp_all
      then have "(length m + 15) div 16 = 1"
        by (intro div_nat_eqI) (simp_all add: Suc_le_eq)
      moreover have "n = 0" using False by (simp add: n_def)
      ultimately show ?thesis by simp
    qed
    have up: "[0..<Suc n] = 0 # map Suc [0..<n]"
      by (simp add: upt_conv_Cons map_Suc_upt del: upt_Suc)
    have "blocks16 m = take 16 m # blocks16 (drop 16 m)"
      using False by (simp add: blocks16.simps)
    also have "blocks16 (drop 16 m) = map (\<lambda>j. take 16 (drop (16 * j) (drop 16 m))) [0..<n]"
      unfolding n_def by (rule "1.IH" [OF False])
    also have "\<dots> = map ((\<lambda>j. take 16 (drop (16 * j) m)) \<circ> Suc) [0..<n]"
      by (rule map_cong) (simp_all add: add.commute)
    finally show ?thesis
      unfolding cnt up by (simp add: comp_def)
  qed
qed

lemma cmac_loop_good:
  assumes good: "\<forall>b. length b = 16 \<longrightarrow> cc kCCEncrypt kCCOptionECBMode K None b = (kCCSuccess, E K b) \<and> length (E K b) = 16"
    and full: "16 * (n - 1) \<le> length msg"
  shows "length x = 16 \<Longrightarrow> i \<le> n - 1 \<Longrightarrow> k = n - 1 - i \<Longrightarrow>
         cmac_loop cc K msg i n x
           = Some (foldl (\<lambda>x b. E K (xor_bytes x b)) x (map (\<lambda>j. take 16 (drop (16 * j) msg)) [i..<n - 1]))
         \<and> length (foldl (\<lambda>x b. E K (xor_bytes x b)) x (map (\<lambda>j. take 16 (drop (16 * j) msg)) [i..<n - 1])) = 16"
proof (induction k arbitrary: i x)
  case 0
  then have "\<not> i + 1 < n" and "[i..<n - 1] = []" by simp_all
  then show ?case using "0.prems"(1) by (simp add: cmac_loop.simps)
next
  case (Suc k)
  then have lt: "i + 1 < n" and i1: "i + 1 \<le> n - 1" and k1: "k = n - 1 - (i + 1)" by simp_all
  have up: "[i..<n - 1] = i # [i + 1..<n - 1]"
    using lt by (simp add: upt_conv_Cons)
  have blk: "16 \<le> length (drop (16 * i) msg)"
    using full i1 by simp
  define y where "y = xor_block x (drop (16 * i) msg) 16"
  have yb: "y = xor_bytes x (take 16 (drop (16 * i) msg))"
    unfolding y_def by (rule xor_block_bytes [OF Suc.prems(1) blk])
  have ly: "length y = 16" by (simp add: y_def length_xor_block)
  have enc: "aes_ecb_encrypt cc K y x = (True, E K y)" and le: "length (E K y) = 16"
    using aes_ecb_encrypt_good [where cc = cc and E = E and K = K, OF good ly Suc.prems(1)] by simp_all
  have "cmac_loop cc K msg i n x = cmac_loop cc K msg (i + 1) n (E K y)"
    using lt by (subst cmac_loop.simps) (simp add: y_def [symmetric] enc Let_def)
  with Suc.IH [OF le i1 k1] show ?case
    unfolding up by (simp add: yb)
qed


lemma block_count:
  fixes len :: nat
  defines "q \<equiv> len div 16" and "r \<equiv> len mod 16"
  shows "(len + 15) div 16 = (if r = 0 then q else Suc q)" and "len = 16 * q + r" and "r < 16"
proof -
  show l: "len = 16 * q + r" and "r < 16" by (simp_all add: q_def r_def)
  have "(16 * q + r + 15) div 16 = q + (r + 15) div 16"
    by (simp add: add.assoc)
  moreover have "(r + 15) div 16 = (if r = 0 then 0 else 1)"
  proof (cases "r = 0")
    case True
    then show ?thesis by simp
  next
    case False
    then have "(r + 15) div 16 = 1"
      using \<open>r < 16\<close> by (intro div_nat_eqI) (simp_all add: Suc_le_eq)
    with False show ?thesis by simp
  qed
  ultimately show "(len + 15) div 16 = (if r = 0 then q else Suc q)"
    using l by simp
qed

lemma pad_block:
  assumes "length rest < 16"
  shows "(if length rest > 0 then memcpy (replicate 16 0) 0 rest (length rest) else replicate 16 0)[length rest := 0x80]
         = rest @ 0x80 # replicate (15 - length rest) (0 :: byte)"
proof -
  have s: "16 - length rest = Suc (15 - length rest)" using assms by simp
  have "(if length rest > 0 then memcpy (replicate 16 0) 0 rest (length rest) else replicate 16 0)
        = rest @ replicate (16 - length rest) (0 :: byte)"
    by (simp add: memcpy_def)
  then show ?thesis
    unfolding s by (simp add: list_update_append)
qed

lemma aes_cmac_good:
  assumes good: "\<forall>b. length b = 16 \<longrightarrow> cc kCCEncrypt kCCOptionECBMode K None b = (kCCSuccess, E K b) \<and> length (E K b) = 16"
    and lp: "length prev = 16"
  shows "aes_cmac cc K M prev = (True, rfc4493_cmac E K M)" and "length (rfc4493_cmac E K M) = 16"
proof -
  define K1 where "K1 = rfc_subkey (E K (replicate 16 0))"
  define K2 where "K2 = rfc_subkey K1"
  define f where "f = (\<lambda>x b. E K (xor_bytes x b))"
  define g where "g = (\<lambda>j. take 16 (drop (16 * j) M))"
  define q where "q = length M div 16"
  define r where "r = length M mod 16"
  define nb where "nb = (length M + 15) div 16"
  define n where "n = (if nb = 0 then 1 else nb)"
  define rest where "rest = drop (16 * (n - 1)) M"
  define X where "X = foldl f (replicate 16 0) (map g [0..<n - 1])"
  have l0: "length (E K (replicate 16 0)) = 16" using good by simp
  have lk1: "length K1 = 16" unfolding K1_def by (rule length_rfc_subkey [OF l0])
  have lk2: "length K2 = 16" unfolding K2_def by (rule length_rfc_subkey [OF lk1])
  have sub: "generate_cmac_subkeys cc K = (K1, K2)"
    unfolding K1_def K2_def
    by (rule generate_cmac_subkeys_good [where cc = cc and E = E and K = K, OF good])
  have cnt: "nb = (if r = 0 then q else Suc q)" and len: "length M = 16 * q + r" and r16: "r < 16"
    unfolding nb_def q_def r_def by (rule block_count)+
  have n1: "n - 1 = nb - 1" by (simp add: n_def)
  have n1q: "16 * (n - 1) = (if r = 0 then 16 * q - 16 else 16 * q)"
    unfolding n1 cnt by (simp add: diff_mult_distrib2)
  have full: "16 * (n - 1) \<le> length M"
    unfolding n1q len by simp
  have lrest: "length rest = (if r = 0 then (if q = 0 then 0 else 16) else r)"
    unfolding rest_def n1q using len by auto
  have loop: "cmac_loop cc K M 0 n (replicate 16 0) = Some X" and lX: "length X = 16"
    using cmac_loop_good [where cc = cc and E = E and K = K and msg = M and n = n and i = 0
        and x = "replicate 16 0" and k = "n - 1", OF good full]
    unfolding X_def f_def g_def by simp_all
  have bs: "blocks16 M = map g [0..<nb]"
    unfolding g_def nb_def by (rule blocks16_index)
  have bu: "butlast [0..<nb] = [0..<nb - 1]" by (cases nb) simp_all
  have front: "butlast (blocks16 M) = map g [0..<n - 1]"
    unfolding bs n1 by (simp add: map_butlast [symmetric] bu)
  have lastb: "last (blocks16 M) = take 16 rest" if "M \<noteq> []"
  proof -
    have "0 < length M" using that by simp
    then have "0 < nb" using len cnt by (cases "r = 0") auto
    then have "last (map g [0..<nb]) = g (nb - 1)"
      by (cases nb) simp_all
    then show ?thesis unfolding bs g_def rest_def n1 .
  qed
  define LB where "LB =
     (if length M \<noteq> 0 \<and> length M mod 16 = 0
      then xor_block rest K1 16
      else xor_block ((if (if length M = 0 then 0 else length M - 16 * (n - 1)) > 0
                       then memcpy (replicate 16 0) 0 rest (if length M = 0 then 0 else length M - 16 * (n - 1))
                       else replicate 16 0)
                      [(if length M = 0 then 0 else length M - 16 * (n - 1)) := 0x80]) K2 16)"
  define FIN where "FIN =
     (if M \<noteq> [] \<and> length M mod 16 = 0 then xor_bytes (last (blocks16 M)) K1
      else xor_bytes ((if M = [] then [] else last (blocks16 M))
                      @ 0x80 # replicate (15 - length (if M = [] then [] else last (blocks16 M))) 0) K2)"
  have lLB: "length LB = 16" unfolding LB_def by (simp add: length_xor_block)
  have fin: "LB = FIN"
  proof (cases "M \<noteq> [] \<and> length M mod 16 = 0")
    case True
    then have r0: "r = 0" and ne: "0 < length M" by (simp_all add: r_def)
    have q0: "q \<noteq> 0" using ne unfolding len r0 by simp
    have lr: "length rest = 16" using lrest r0 q0 by simp
    have "xor_block rest K1 16 = xor_bytes rest (take 16 K1)"
      by (rule xor_block_bytes [OF lr]) (simp add: lk1)
    then have x: "xor_block rest K1 16 = xor_bytes (take 16 rest) K1" using lr lk1 by simp
    have nl: "(length M \<noteq> 0 \<and> length M mod 16 = 0) = True" using True by simp
    have nm: "(M \<noteq> [] \<and> length M mod 16 = 0) = True" using True by simp
    have lb: "last (blocks16 M) = take 16 rest" using True by (simp add: lastb)
    show ?thesis
      unfolding LB_def FIN_def nl nm if_True lb by (rule x)
  next
    case False
    then have c: "M = [] \<or> r \<noteq> 0" by (simp add: r_def)
    have lr: "length rest < 16"
    proof (cases "r = 0")
      case True
      with c have "length M = 0" by simp
      then have "q = 0" unfolding len by simp
      with True show ?thesis using lrest by simp
    next
      case False
      then show ?thesis using lrest r16 by simp
    qed
    have ll: "(if length M = 0 then 0 else length M - 16 * (n - 1)) = length rest"
      unfolding rest_def by simp
    have rr: "(if M = [] then [] else last (blocks16 M)) = rest"
    proof (cases "M = []")
      case True
      then show ?thesis by (simp add: rest_def)
    next
      case False
      then show ?thesis using lr by (simp add: lastb)
    qed
    define lb where "lb = rest @ 0x80 # replicate (15 - length rest) (0 :: byte)"
    have llb: "length lb = 16" using lr by (simp add: lb_def)
    have "xor_block lb K2 16 = xor_bytes lb (take 16 K2)"
      by (rule xor_block_bytes [OF llb]) (simp add: lk2)
    then have x: "xor_block lb K2 16 = xor_bytes lb K2" using lk2 by simp
    have nl: "(length M \<noteq> 0 \<and> length M mod 16 = 0) = False" using False by simp
    have nm: "(M \<noteq> [] \<and> length M mod 16 = 0) = False" using False by simp
    show ?thesis
      unfolding LB_def FIN_def nl nm if_False ll rr pad_block [OF lr] lb_def [symmetric]
      by (rule x)
  qed
  have xl: "xor_block X LB 16 = xor_bytes X LB"
    using xor_block_bytes [OF lX, of LB] lLB by simp
  have lxl: "length (xor_block X LB 16) = 16" by (simp add: length_xor_block)
  have enc: "aes_ecb_encrypt cc K (xor_block X LB 16) prev = (True, E K (xor_bytes X LB))"
    and lenc: "length (E K (xor_bytes X LB)) = 16"
    using aes_ecb_encrypt_good [where cc = cc and E = E and K = K, OF good lxl lp] unfolding xl by simp_all
  have code: "aes_cmac cc K M prev = aes_ecb_encrypt cc K (xor_block X LB 16) prev"
    unfolding aes_cmac_def sub Let_def prod.case nb_def [symmetric] n_def [symmetric] rest_def [symmetric]
      LB_def [symmetric] loop option.case
    by (rule refl)
  have spec: "rfc4493_cmac E K M = E K (xor_bytes X FIN)"
    unfolding rfc4493_cmac_def Let_def K1_def [symmetric] K2_def [symmetric] FIN_def [symmetric] front
      f_def [symmetric]
    by (simp add: X_def) (simp add: f_def)
  show "aes_cmac cc K M prev = (True, rfc4493_cmac E K M)"
    unfolding code spec fin [symmetric] by (rule enc)
  show "length (rfc4493_cmac E K M) = 16"
    unfolding spec fin [symmetric] by (rule lenc)
qed

lemma blocks16_single: "length b = 16 \<Longrightarrow> blocks16 b = [b]"
  by (subst blocks16.simps) (auto simp: blocks16.simps)

lemma toy_cc_ecb:
  assumes "length k = 16"
  shows "\<forall>b. length b = 16 \<longrightarrow>
           toy_cc kCCEncrypt kCCOptionECBMode k None b = (kCCSuccess, (\<lambda>k b. xor_bytes b k) k b)
           \<and> length ((\<lambda>k b. xor_bytes b k) k b) = 16"
  using assms by (simp add: toy_cc_def blocks16_single xor_bytes_def)

text \<open>
  Claim C8. Let the system's primitive, asked to ECB-encrypt a block under the key
  \<open>K\<close>, succeed and give the 16-byte block \<open>E K b\<close>. Then for every message \<open>M\<close> the
  program's \<open>aes_cmac\<close> succeeds and its tag is the CMAC of RFC 4493 as the
  specification words it: the subkeys are the one-bit left shifts (as 128-bit
  numbers) of \<open>E K 0\<close> and of \<open>K1\<close>, with \<open>0x87\<close> XORed into the last byte when the top
  bit was set; the final block is the last full block XOR \<open>K1\<close> when the length is a
  non-zero multiple of 16 and the padded remainder XOR \<open>K2\<close> otherwise; the tag is
  the CBC-MAC of the blocks from an all-zero IV, and has 16 bytes.
\<close>

theorem aes_cmac_rfc4493:
  assumes "\<forall>b. length b = 16 \<longrightarrow> cc kCCEncrypt kCCOptionECBMode K None b = (kCCSuccess, E K b) \<and> length (E K b) = 16"
    and "length prev = 16"
  shows "generate_cmac_subkeys cc K
           = (rfc_subkey (E K (replicate 16 0)), rfc_subkey (rfc_subkey (E K (replicate 16 0))))
         \<and> aes_cmac cc K M prev = (True, rfc4493_cmac E K M)
         \<and> length (rfc4493_cmac E K M) = 16"
  using generate_cmac_subkeys_good [where cc = cc and E = E and K = K, OF assms(1)]
    aes_cmac_good [where cc = cc and E = E and K = K and M = M, OF assms]
  by simp

theorem aes_cmac_rfc4493_witness:
  "aes_cmac toy_cc demo_key
     [0x01, 0x02, 0x03, 0x04, 0x05, 0x06, 0x07, 0x08, 0x09, 0x0A, 0x0B, 0x0C, 0x0D, 0x0E, 0x0F, 0x10,
      0x11, 0x12, 0x13, 0x14] (replicate 16 0)
   = (True, rfc4493_cmac (\<lambda>k b. xor_bytes b k) demo_key
        [0x01, 0x02, 0x03, 0x04, 0x05, 0x06, 0x07, 0x08, 0x09, 0x0A, 0x0B, 0x0C, 0x0D, 0x0E, 0x0F, 0x10,
         0x11, 0x12, 0x13, 0x14])
   \<and> rfc4493_cmac (\<lambda>k b. xor_bytes b k) demo_key
        [0x01, 0x02, 0x03, 0x04, 0x05, 0x06, 0x07, 0x08, 0x09, 0x0A, 0x0B, 0x0C, 0x0D, 0x0E, 0x0F, 0x10,
         0x11, 0x12, 0x13, 0x14]
     = [0x92, 0x96, 0x9A, 0x9E, 0x17, 0x90, 0x9D, 0x96, 0xAB, 0xAC, 0xA1, 0xA2, 0xBF, 0xB8, 0xB4, 0xA2]
   \<and> generate_cmac_subkeys toy_cc demo_key
     = ([0x41, 0x43, 0x45, 0x47, 0x49, 0x4B, 0x4D, 0x4F, 0x51, 0x53, 0x55, 0x57, 0x59, 0x5B, 0x5D, 0xD9],
        [0x82, 0x86, 0x8A, 0x8E, 0x92, 0x96, 0x9A, 0x9E, 0xA2, 0xA6, 0xAA, 0xAE, 0xB2, 0xB6, 0xBB, 0xB2])"
proof -
  have k: "length demo_key = 16" by (simp add: demo_key_def)
  have p: "length (replicate 16 (0 :: byte)) = 16" by simp
  have v: "aes_cmac toy_cc demo_key
     [0x01, 0x02, 0x03, 0x04, 0x05, 0x06, 0x07, 0x08, 0x09, 0x0A, 0x0B, 0x0C, 0x0D, 0x0E, 0x0F, 0x10,
      0x11, 0x12, 0x13, 0x14] (replicate 16 0)
     = (True, [0x92, 0x96, 0x9A, 0x9E, 0x17, 0x90, 0x9D, 0x96, 0xAB, 0xAC, 0xA1, 0xA2, 0xBF, 0xB8, 0xB4, 0xA2])"
    by code_simp
  have s: "generate_cmac_subkeys toy_cc demo_key
     = ([0x41, 0x43, 0x45, 0x47, 0x49, 0x4B, 0x4D, 0x4F, 0x51, 0x53, 0x55, 0x57, 0x59, 0x5B, 0x5D, 0xD9],
        [0x82, 0x86, 0x8A, 0x8E, 0x92, 0x96, 0x9A, 0x9E, 0xA2, 0xA6, 0xAA, 0xAE, 0xB2, 0xB6, 0xBB, 0xB2])"
    by code_simp
  note inst = aes_cmac_rfc4493 [where cc = toy_cc and E = "\<lambda>k b. xor_bytes b k" and K = demo_key
      and prev = "replicate 16 0"
      and M = "[0x01, 0x02, 0x03, 0x04, 0x05, 0x06, 0x07, 0x08, 0x09, 0x0A, 0x0B, 0x0C, 0x0D, 0x0E, 0x0F, 0x10,
      0x11, 0x12, 0x13, 0x14]", OF toy_cc_ecb [OF k] p]
  from inst [THEN conjunct2, THEN conjunct1] v s
  show ?thesis by simp
qed

section \<open>ChangeKey payload\<close>

lemma crc32_shift_xor:
  assumes "k < 8"
  shows "crc32_shift (s XOR drop_bit k (ucast (d :: byte)))
         = crc_bit 0xEDB88320 s (bit d k) XOR drop_bit (Suc k) (ucast d)"
proof -
  define t :: "32 word" where "t = s XOR drop_bit k (ucast d)"
  have b0: "(t AND 1 \<noteq> 0) = (bit s 0 \<noteq> bit d k)"
  proof -
    have "(t AND 1 \<noteq> 0) = bit t 0"
      using and_exp_eq_0_iff_not_bit [of t 0] by simp
    also have "\<dots> = (bit s 0 \<noteq> bit (drop_bit k (ucast d :: 32 word)) 0)"
      by (simp add: t_def bit_xor_iff)
    also have "bit (drop_bit k (ucast d :: 32 word)) 0 = bit d k"
      using assms by (simp add: bit_drop_bit_eq bit_ucast_iff)
    finally show ?thesis .
  qed
  have d1: "drop_bit 1 t = drop_bit 1 s XOR drop_bit (Suc k) (ucast d)"
    by (simp add: t_def drop_bit_drop_bit)
  show ?thesis
    unfolding t_def [symmetric] crc32_shift_def crc_bit_def b0 d1
    by (simp add: ac_simps)
qed

lemma crc32_shift_steps:
  "k \<le> 8 \<Longrightarrow>
   (crc32_shift ^^ k) (c XOR ucast (d :: byte))
   = foldl (crc_bit 0xEDB88320) c (map (bit d) [0..<k]) XOR drop_bit k (ucast d)"
proof (induction k)
  case 0
  then show ?case by simp
next
  case (Suc k)
  then have k: "k < 8" and IH: "(crc32_shift ^^ k) (c XOR ucast d)
     = foldl (crc_bit 0xEDB88320) c (map (bit d) [0..<k]) XOR drop_bit k (ucast d)"
    by simp_all
  show ?case
    by (simp add: IH crc32_shift_xor [OF k] del: drop_bit_Suc)
qed

lemma crc32_byte_bits:
  "crc32_byte c d = foldl (crc_bit 0xEDB88320) c (bits_lsb_first d)"
proof -
  have z: "drop_bit 8 (ucast d :: 32 word) = 0"
    by (rule bit_word_eqI) (auto simp: bit_simps dest: bit_imp_le_length)
  show ?thesis
    unfolding crc32_byte_def bits_lsb_first_def
    using crc32_shift_steps [of 8 c d] by (simp add: z)
qed

lemma crc32_ieee_reflected:
  "crc32_ieee data = crc32_reflected 0xEDB88320 0xFFFFFFFF data"
proof -
  have "foldl crc32_byte c data = foldl (crc_bit 0xEDB88320) c (concat (map bits_lsb_first data))" for c
    by (induction data arbitrary: c) (simp_all add: crc32_byte_bits)
  then show ?thesis
    by (simp add: crc32_ieee_def crc32_reflected_def)
qed

lemma le_bytes_32:
  fixes w :: "32 word"
  shows "[ucast (w AND 0xFF), ucast (drop_bit 8 w AND 0xFF), ucast (drop_bit 16 w AND 0xFF), ucast (drop_bit 24 w AND 0xFF) :: byte]
         = le_bytes 4 (unat w)"
proof -
  have b: "(ucast (drop_bit n w AND 0xFF) :: byte) = of_nat (unat w div 2 ^ n mod 256)" for n
  proof -
    have "(ucast (drop_bit n w AND 0xFF) :: byte) = ucast (drop_bit n w)"
      unfolding and_ff by (rule bit_word_eqI) (auto simp: bit_simps)
    also have "\<dots> = of_nat (unat (drop_bit n w))"
      by simp
    also have "unat (drop_bit n w) = unat w div 2 ^ n"
      unfolding unat_drop_bit_eq by (rule drop_bit_eq_div)
    also have "(of_nat (unat w div 2 ^ n) :: byte) = of_nat (unat w div 2 ^ n mod 256)"
      by (simp add: word_of_nat_eq_iff take_bit_eq_mod)
    finally show ?thesis .
  qed
  have e: "[0..<4] = [0, 1, 2, 3]" by (simp add: upt_rec)
  show ?thesis
    unfolding le_bytes_def e
    using b [of 0] b [of 8] b [of 16] b [of 24] by simp
qed

lemma xor_index_bytes:
  assumes "length a = 16" and "length b = 16"
  shows "map (\<lambda>i. a ! i XOR b ! i) [0..<16] = xor_bytes a b"
  using assms by (auto simp: xor_bytes_def list_eq_iff_nth_eq)

lemma funpow8: "(f ^^ 8) x = f (f (f (f (f (f (f (f x)))))))"
  by (simp add: numeral_eq_Suc)

lemma crc32_ieee_demo: "crc32_ieee demo_rndA = 0x7BF88A64"
  by (simp add: crc32_ieee_def demo_rndA_def crc32_byte_def crc32_shift_def funpow8)

lemma length_demo_rndA: "length demo_rndA = 16"
  by (simp add: demo_rndA_def)

lemma xor_zero_key: "map (\<lambda>i. demo_rndA ! i XOR replicate 16 0 ! i) [0..<16] = demo_rndA"
proof -
  have "map (\<lambda>i. demo_rndA ! i XOR replicate 16 0 ! i) [0..<16] = map (\<lambda>i. demo_rndA ! i) [0..<length demo_rndA]"
    by (simp add: length_demo_rndA)
  thus ?thesis by (simp only: map_nth)
qed

lemma change_key_data_demo:
  "change_key_data (replicate 16 0) demo_rndA 0x01
     = [0x00, 0x11, 0x22, 0x33, 0x44, 0x55, 0x66, 0x77, 0x88, 0x99, 0xAA, 0xBB, 0xCC, 0xDD, 0xEE, 0xFF,
        0x01, 0x64, 0x8A, 0xF8, 0x7B]"
proof -
  have t: "take 16 demo_rndA = demo_rndA" by (simp add: length_demo_rndA)
  have "change_key_data (replicate 16 0) demo_rndA 0x01 = demo_rndA @ [0x01, 0x64, 0x8A, 0xF8, 0x7B]"
    unfolding change_key_data_def Let_def t crc32_ieee_demo xor_zero_key by simp
  thus ?thesis by (simp add: demo_rndA_def)
qed

text \<open>
  Claim C7. For every target key number, 16-byte old key, 16-byte new key and key
  version, \<open>change_key\<close> builds exactly the 21-byte payload \<open>newKey XOR oldKey\<close>
  (16 bytes), the key version, and 4 little-endian bytes of the CRC of the new key -
  the reflected CRC with polynomial \<open>0xEDB88320\<close>, initial value \<open>0xFFFFFFFF\<close> and
  no final inversion - and sends it through \<open>ssm_cmd_full\<close> with INS \<open>0xC4\<close> and the
  one header byte \<open>targetKeyNo\<close>.
\<close>

theorem change_key_payload:
  assumes "length old_key = 16" and "length new_key = 16"
  shows "change_key tx cc crd sess keyno old_key new_key key_ver
         = ssm_cmd_full tx cc crd sess 0xC4 [keyno]
             (xor_bytes new_key old_key @ [key_ver]
              @ le_bytes 4 (unat (crc32_reflected 0xEDB88320 0xFFFFFFFF new_key))) 16
       \<and> change_key_data old_key new_key key_ver
         = xor_bytes new_key old_key @ [key_ver] @ le_bytes 4 (unat (crc32_reflected 0xEDB88320 0xFFFFFFFF new_key))
       \<and> length (change_key_data old_key new_key key_ver) = 21"
proof -
  have d: "change_key_data old_key new_key key_ver
         = xor_bytes new_key old_key @ [key_ver] @ le_bytes 4 (unat (crc32_reflected 0xEDB88320 0xFFFFFFFF new_key))"
    unfolding change_key_data_def Let_def
    using assms
    by (simp add: xor_index_bytes crc32_ieee_reflected le_bytes_32 [symmetric])
  have l: "length (change_key_data old_key new_key key_ver) = 21"
    by (simp add: change_key_data_def Let_def)
  show ?thesis
    using d l by (simp add: change_key_def Let_def)
qed

theorem change_key_payload_witness:
  "length (replicate 16 (0 :: byte)) = 16 \<and> length demo_rndA = 16
   \<and> xor_bytes demo_rndA (replicate 16 0) @ [0x01]
         @ le_bytes 4 (unat (crc32_reflected 0xEDB88320 0xFFFFFFFF demo_rndA))
       = change_key_data (replicate 16 0) demo_rndA 0x01
   \<and> change_key_data (replicate 16 0) demo_rndA 0x01
       = [0x00, 0x11, 0x22, 0x33, 0x44, 0x55, 0x66, 0x77, 0x88, 0x99, 0xAA, 0xBB, 0xCC, 0xDD, 0xEE, 0xFF,
          0x01, 0x64, 0x8A, 0xF8, 0x7B]"
proof -
  have o: "length (replicate 16 (0 :: byte)) = 16" by simp
  note inst = change_key_payload [OF o length_demo_rndA, where key_ver = "0x01"]
  from inst [THEN conjunct2, THEN conjunct1] o length_demo_rndA change_key_data_demo
  show ?thesis by simp
qed

section \<open>The session keys\<close>

lemma sv_layout:
  assumes "length p = 6" and "length rndA = 16" and "length rndB = 16" and "length x = 6"
  shows "memcpy (memcpy (memcpy (memcpy (memcpy (replicate 32 0) 0 p 6) 6 rndA 2) 8 x 6) 14 (drop 6 rndB) 10)
           24 (drop 8 rndA) 8
         = p @ take 2 rndA @ x @ drop 6 rndB @ drop 8 rndA"
  using assms by (simp add: memcpy_def)

lemma xor_part_bytes:
  assumes "length rndA = 16" and "length rndB = 16"
  shows "map (\<lambda>i. rndA ! (2 + i) XOR rndB ! i) [0..<6] = xor_bytes (take 6 (drop 2 rndA)) (take 6 rndB)"
  using assms by (auto simp: xor_bytes_def list_eq_iff_nth_eq)

lemma aes_cbc_crypt_length:
  "fst (aes_cbc_crypt cc enc key iv inp n) \<Longrightarrow> length (snd (aes_cbc_crypt cc enc key iv inp n)) = n"
  by (auto simp: aes_cbc_crypt_def case_prod_unfold Let_def)

lemma authenticate_keys:
  assumes "authenticate_ev2_first tx cc crd K keyno rndA s0 = ((True, sess), crd')"
  shows "fst (aes_cbc_crypt cc False K (replicate 16 0)
                (take 16 (fst (snd (fst (transmit tx crd [0x90, 0x71, 0x00, 0x00, 0x02, keyno, 0x00, 0x00] 0))))) 16)
         \<and> (let rndB = snd (aes_cbc_crypt cc False K (replicate 16 0)
                (take 16 (fst (snd (fst (transmit tx crd [0x90, 0x71, 0x00, 0x00, 0x02, keyno, 0x00, 0x00] 0))))) 16);
                 x = map (\<lambda>i. rndA ! (2 + i) XOR rndB ! i) [0..<6];
                 sv1 = memcpy (memcpy (memcpy (memcpy (memcpy (replicate 32 0)
                         0 [0xA5, 0x5A, 0x00, 0x01, 0x00, 0x80] 6) 6 rndA 2) 8 x 6) 14 (drop 6 rndB) 10)
                         24 (drop 8 rndA) 8;
                 sv2 = memcpy (memcpy (memcpy (memcpy (memcpy (replicate 32 0)
                         0 [0x5A, 0xA5, 0x00, 0x01, 0x00, 0x80] 6) 6 rndA 2) 8 x 6) 14 (drop 6 rndB) 10)
                         24 (drop 8 rndA) 8
             in aes_cmac cc K sv1 (kenc s0) = (True, kenc sess)
                \<and> aes_cmac cc K sv2 (kmac s0) = (True, kmac sess))"
  using assms
  unfolding authenticate_ev2_first_def Let_def case_prod_unfold
  by (simp split: if_splits add: prod_eq_iff) auto


text \<open>
  Claim C3. After a successful EV2-First handshake with the long-term key \<open>K\<close> and
  the 16-byte host nonce \<open>RndA\<close>, let \<open>RndB\<close> be the card nonce the program decrypted
  from the first answer, and \<open>MIX\<close> the 26 bytes
  \<open>RndA[0..2] || (RndA[2..8] XOR RndB[0..6]) || RndB[6..16] || RndA[8..16]\<close>. Then
  \<open>RndB\<close> has 16 bytes, and the session keys stored are the results of the program's
  \<open>aes_cmac\<close> under \<open>K\<close> on \<open>A5 5A 00 01 00 80 || MIX\<close> (for \<open>kenc\<close>) and on
  \<open>5A A5 00 01 00 80 || MIX\<close> (for \<open>kmac\<close>), both 32 bytes long. Where the system's
  primitive encrypts blocks under \<open>K\<close> as \<open>E K\<close> and the key fields of the session
  struct have 16 bytes, these are the CMACs of RFC 4493 of the two messages.
\<close>

theorem session_keys_derivation:
  assumes "authenticate_ev2_first tx cc crd K keyno rndA s0 = ((True, sess), crd')"
    and "length rndA = 16"
    and "rndB = snd (aes_cbc_crypt cc False K (replicate 16 0)
                  (take 16 (fst (snd (fst (transmit tx crd [0x90, 0x71, 0x00, 0x00, 0x02, keyno, 0x00, 0x00] 0))))) 16)"
    and "MIX = take 2 rndA @ xor_bytes (take 6 (drop 2 rndA)) (take 6 rndB) @ drop 6 rndB @ drop 8 rndA"
  shows "length rndB = 16 \<and> length MIX = 26
         \<and> aes_cmac cc K ([0xA5, 0x5A, 0x00, 0x01, 0x00, 0x80] @ MIX) (kenc s0) = (True, kenc sess)
         \<and> aes_cmac cc K ([0x5A, 0xA5, 0x00, 0x01, 0x00, 0x80] @ MIX) (kmac s0) = (True, kmac sess)
         \<and> ((\<forall>b. length b = 16 \<longrightarrow> cc kCCEncrypt kCCOptionECBMode K None b = (kCCSuccess, E K b) \<and> length (E K b) = 16)
              \<and> length (kenc s0) = 16 \<and> length (kmac s0) = 16
            \<longrightarrow> kenc sess = rfc4493_cmac E K ([0xA5, 0x5A, 0x00, 0x01, 0x00, 0x80] @ MIX)
                \<and> kmac sess = rfc4493_cmac E K ([0x5A, 0xA5, 0x00, 0x01, 0x00, 0x80] @ MIX))"
proof -
  note k = authenticate_keys [OF assms(1), unfolded Let_def, folded assms(3)]
  have lb: "length rndB = 16"
    unfolding assms(3) using k [THEN conjunct1] by (rule aes_cbc_crypt_length)
  have x: "map (\<lambda>i. rndA ! (2 + i) XOR rndB ! i) [0..<6] = xor_bytes (take 6 (drop 2 rndA)) (take 6 rndB)"
    using assms(2) lb by (rule xor_part_bytes)
  have lx: "length (xor_bytes (take 6 (drop 2 rndA)) (take 6 rndB)) = 6"
    using assms(2) lb by (simp add: xor_bytes_def)
  have lm: "length MIX = 26"
    unfolding assms(4) using assms(2) lb lx by simp
  have s1: "memcpy (memcpy (memcpy (memcpy (memcpy (replicate 32 0) 0 [0xA5, 0x5A, 0x00, 0x01, 0x00, 0x80] 6) 6 rndA 2) 8
                (xor_bytes (take 6 (drop 2 rndA)) (take 6 rndB)) 6) 14 (drop 6 rndB) 10) 24 (drop 8 rndA) 8
            = [0xA5, 0x5A, 0x00, 0x01, 0x00, 0x80] @ MIX"
    unfolding assms(4) by (rule sv_layout) (simp_all add: assms(2) lb lx)
  have s2: "memcpy (memcpy (memcpy (memcpy (memcpy (replicate 32 0) 0 [0x5A, 0xA5, 0x00, 0x01, 0x00, 0x80] 6) 6 rndA 2) 8
                (xor_bytes (take 6 (drop 2 rndA)) (take 6 rndB)) 6) 14 (drop 6 rndB) 10) 24 (drop 8 rndA) 8
            = [0x5A, 0xA5, 0x00, 0x01, 0x00, 0x80] @ MIX"
    unfolding assms(4) by (rule sv_layout) (simp_all add: assms(2) lb lx)
  have e: "aes_cmac cc K ([0xA5, 0x5A, 0x00, 0x01, 0x00, 0x80] @ MIX) (kenc s0) = (True, kenc sess)"
    and m: "aes_cmac cc K ([0x5A, 0xA5, 0x00, 0x01, 0x00, 0x80] @ MIX) (kmac s0) = (True, kmac sess)"
    using k [THEN conjunct2] unfolding x s1 s2 by simp_all
  have r: "kenc sess = rfc4493_cmac E K ([0xA5, 0x5A, 0x00, 0x01, 0x00, 0x80] @ MIX)
           \<and> kmac sess = rfc4493_cmac E K ([0x5A, 0xA5, 0x00, 0x01, 0x00, 0x80] @ MIX)"
    if g: "\<forall>b. length b = 16 \<longrightarrow> cc kCCEncrypt kCCOptionECBMode K None b = (kCCSuccess, E K b) \<and> length (E K b) = 16"
      and l1: "length (kenc s0) = 16" and l2: "length (kmac s0) = 16"
  proof -
    note c1 = aes_cmac_good(1) [where cc = cc and E = E and K = K and prev = "kenc s0", OF g l1]
    note c2 = aes_cmac_good(1) [where cc = cc and E = E and K = K and prev = "kmac s0", OF g l2]
    show ?thesis using e m by (simp add: c1 c2)
  qed
  show ?thesis using lb lm e m r by blast
qed


theorem session_keys_derivation_witness:
  "length demo_rndB = 16
   \<and> aes_cmac toy_cc demo_key ([0xA5, 0x5A, 0x00, 0x01, 0x00, 0x80] @ [0x00, 0x11, 0xE8, 0xCD, 0xFE, 0xEB, 0xB8, 0xDA, 0xBE, 0xEF, 0x01, 0x23, 0x45, 0x67, 0x89, 0xAB, 0xCD, 0xEF,
        0x88, 0x99, 0xAA, 0xBB, 0xCC, 0xDD, 0xEE, 0xFF]) (kenc zero_session) = (True, [0xE5, 0x3A, 0x00, 0x21, 0xC0, 0x60, 0x80, 0xB1, 0x31, 0x07, 0x01, 0x07, 0x2D, 0x5C, 0x0D, 0xC9])
   \<and> aes_cmac toy_cc demo_key ([0x5A, 0xA5, 0x00, 0x01, 0x00, 0x80] @ [0x00, 0x11, 0xE8, 0xCD, 0xFE, 0xEB, 0xB8, 0xDA, 0xBE, 0xEF, 0x01, 0x23, 0x45, 0x67, 0x89, 0xAB, 0xCD, 0xEF,
        0x88, 0x99, 0xAA, 0xBB, 0xCC, 0xDD, 0xEE, 0xFF]) (kmac zero_session) = (True, [0x1A, 0xC5, 0x00, 0x21, 0xC0, 0x60, 0x80, 0xB1, 0x31, 0x07, 0x01, 0x07, 0x2D, 0x5C, 0x0D, 0xC9])
   \<and> rfc4493_cmac (\<lambda>k b. xor_bytes b k) demo_key ([0xA5, 0x5A, 0x00, 0x01, 0x00, 0x80] @ [0x00, 0x11, 0xE8, 0xCD, 0xFE, 0xEB, 0xB8, 0xDA, 0xBE, 0xEF, 0x01, 0x23, 0x45, 0x67, 0x89, 0xAB, 0xCD, 0xEF,
        0x88, 0x99, 0xAA, 0xBB, 0xCC, 0xDD, 0xEE, 0xFF]) = [0xE5, 0x3A, 0x00, 0x21, 0xC0, 0x60, 0x80, 0xB1, 0x31, 0x07, 0x01, 0x07, 0x2D, 0x5C, 0x0D, 0xC9]
   \<and> rfc4493_cmac (\<lambda>k b. xor_bytes b k) demo_key ([0x5A, 0xA5, 0x00, 0x01, 0x00, 0x80] @ [0x00, 0x11, 0xE8, 0xCD, 0xFE, 0xEB, 0xB8, 0xDA, 0xBE, 0xEF, 0x01, 0x23, 0x45, 0x67, 0x89, 0xAB, 0xCD, 0xEF,
        0x88, 0x99, 0xAA, 0xBB, 0xCC, 0xDD, 0xEE, 0xFF]) = [0x1A, 0xC5, 0x00, 0x21, 0xC0, 0x60, 0x80, 0xB1, 0x31, 0x07, 0x01, 0x07, 0x2D, 0x5C, 0x0D, 0xC9]"
proof -
  define S where "S = \<lparr>kenc = [0xE5, 0x3A, 0x00, 0x21, 0xC0, 0x60, 0x80, 0xB1, 0x31, 0x07, 0x01, 0x07, 0x2D, 0x5C, 0x0D, 0xC9],
              kmac = [0x1A, 0xC5, 0x00, 0x21, 0xC0, 0x60, 0x80, 0xB1, 0x31, 0x07, 0x01, 0x07, 0x2D, 0x5C, 0x0D, 0xC9],
              ti = [0x11, 0x22, 0x33, 0x44], cmd_ctr = 0, key_no = 0, authenticated = True\<rparr>"
  have a1: "authenticate_ev2_first scripted toy_cc demo_ev2_script demo_key 0 demo_rndA zero_session
            = ((True, S),
      ([], [[0x90, 0x71, 0x00, 0x00, 0x02, 0x00, 0x00, 0x00],
            [0x90, 0xAF, 0x00, 0x00, 0x20,
             0xA0, 0xB0, 0x80, 0x90, 0xE0, 0xF0, 0xC0, 0xD0, 0x20, 0x30, 0x00, 0x10, 0x60, 0x70, 0x40, 0x50,
             0xFE, 0xAB, 0x9C, 0xED, 0xE9, 0xEB, 0x89, 0x76, 0xAB, 0xDC, 0xCD, 0x32, 0x67, 0x10, 0x01, 0x35,
             0x00]]))"
    unfolding S_def by (rule demo_ev2)
  have a2: "length demo_rndA = 16" by (simp add: demo_rndA_def)
  have a3: "demo_rndB = snd (aes_cbc_crypt toy_cc False demo_key (replicate 16 0)
                  (take 16 (fst (snd (fst (transmit scripted demo_ev2_script [0x90, 0x71, 0x00, 0x00, 0x02, 0, 0x00, 0x00] 0))))) 16)"
    by code_simp
  have a4: "[0x00, 0x11, 0xE8, 0xCD, 0xFE, 0xEB, 0xB8, 0xDA, 0xBE, 0xEF, 0x01, 0x23, 0x45, 0x67, 0x89, 0xAB, 0xCD, 0xEF,
        0x88, 0x99, 0xAA, 0xBB, 0xCC, 0xDD, 0xEE, 0xFF]
            = take 2 demo_rndA @ xor_bytes (take 6 (drop 2 demo_rndA)) (take 6 demo_rndB) @ drop 6 demo_rndB @ drop 8 demo_rndA"
    by code_simp
  have k: "length demo_key = 16" by (simp add: demo_key_def)
  have z: "length (kenc zero_session) = 16" "length (kmac zero_session) = 16" by (simp_all add: zero_session_def)
  note inst = session_keys_derivation [where E = "\<lambda>k b. xor_bytes b k", OF a1 a2 a3 a4]
  have ke: "kenc S = [0xE5, 0x3A, 0x00, 0x21, 0xC0, 0x60, 0x80, 0xB1, 0x31, 0x07, 0x01, 0x07, 0x2D, 0x5C, 0x0D, 0xC9]" and km: "kmac S = [0x1A, 0xC5, 0x00, 0x21, 0xC0, 0x60, 0x80, 0xB1, 0x31, 0x07, 0x01, 0x07, 0x2D, 0x5C, 0x0D, 0xC9]" by (simp_all add: S_def)
  note r = mp [OF inst [THEN conjunct2, THEN conjunct2, THEN conjunct2, THEN conjunct2]
      conjI [OF toy_cc_ecb [OF k] conjI [OF z]]]
  show ?thesis
    using inst [THEN conjunct1] inst [THEN conjunct2, THEN conjunct2, THEN conjunct1]
      inst [THEN conjunct2, THEN conjunct2, THEN conjunct2, THEN conjunct1] r
    unfolding ke km by simp
qed

end
